theory Spec2Isabelle
  imports
    Complex_Main
    "HOL-Library.Signed_Division"
    "HOL-Library.Monad_Syntax"
    "HOL-Library.Log_Nat"
begin

section \<open>C++ arithmetic and element access\<close>

text \<open>
  Both source files compute indices in the C++ type \<open>int\<close>, taken here to be 32 bits
  wide. The result of a signed operation that is not representable is undefined
  behaviour, as is an element access outside a vector. Every function whose source does
  \<open>int\<close> arithmetic or indexes a vector therefore returns an \<open>option\<close>: \<open>None\<close> stands
  for an execution that has no defined result (signed overflow, an access out of range,
  or a recursion or loop that does not end).
\<close>

definition INT_MAX :: int where
  "INT_MAX = 2147483647"

definition INT_MIN :: int where
  "INT_MIN = - 2147483648"

text \<open>The value of an \<open>int\<close> expression whose mathematical result is \<open>x\<close>.\<close>

definition int_result :: "int \<Rightarrow> int option" where
  "int_result x = (if INT_MIN \<le> x \<and> x \<le> INT_MAX then Some x else None)"

text \<open>Conversion of a \<open>size_t\<close> value to \<open>int\<close>: reduction modulo \<open>2 ^ 32\<close>.\<close>

definition to_int :: "int \<Rightarrow> int" where
  "to_int x = (x + 2147483648) mod 4294967296 - 2147483648"

text \<open>\<open>v[i]\<close> on a \<open>std::vector\<close>.\<close>

definition subscript :: "'a list \<Rightarrow> int \<Rightarrow> 'a option" where
  "subscript v i = (if 0 \<le> i \<and> i < int (length v) then Some (v ! nat i) else None)"


section \<open>BinarySearch.cpp\<close>

text \<open>
  The loop \<open>for (int index : path) cout << arr[index]\<close> that follows
  \<open>"Path taken: "\<close>: the values written to the output.
\<close>

fun print_path :: "int list \<Rightarrow> int list \<Rightarrow> int list option" where
  "print_path arr [] = Some []"
| "print_path arr (index # rest) =
     do { a \<leftarrow> subscript arr index; out \<leftarrow> print_path arr rest; Some (a # out) }"

text \<open>
  The body of \<open>binarySearch\<close> from the head of its \<open>while\<close> loop on, as a function of
  the local variables \<open>low\<close>, \<open>high\<close> and \<open>path\<close>. The result is the returned \<open>int\<close>,
  the vector \<open>path\<close> of visited indices at the return, and the values printed.
\<close>

partial_function (option) binarySearch_from ::
  "int list \<Rightarrow> int \<Rightarrow> int \<Rightarrow> int \<Rightarrow> int list \<Rightarrow> (int \<times> int list \<times> int list) option" where
  [code]: "binarySearch_from arr target low high path =
    (if low \<le> high then
       do {
         s \<leftarrow> int_result (low + high);
         s1 \<leftarrow> int_result (s + 1);
         let mid = s1 sdiv 2;
         let path' = path @ [mid];
         a \<leftarrow> subscript arr mid;
         if a = target then
           do { out \<leftarrow> print_path arr path'; Some (mid, path', out) }
         else if a < target then
           do { low' \<leftarrow> int_result (mid + 1);
                binarySearch_from arr target low' high path' }
         else
           do { high' \<leftarrow> int_result (mid - 1);
                binarySearch_from arr target low high' path' }
       }
     else do { out \<leftarrow> print_path arr path; Some (- 1, path, out) })"

definition binarySearch :: "int list \<Rightarrow> int \<Rightarrow> (int \<times> int list \<times> int list) option" where
  "binarySearch arr target =
     binarySearch_from arr target 0 (to_int (int (length arr) - 1)) []"


section \<open>a02\_V5.cpp: the tree\<close>

text \<open>
  \<open>AVLNode<T>\<close>: a null pointer or a node with its key, the two subtrees it owns and
  its \<open>height\<close> field. \<open>T\<close> is any type with a total order.
\<close>

datatype 'a AVLNode =
  Null
  | Node (left: "'a AVLNode") (key: 'a) (right: "'a AVLNode") (height_field: int)

text \<open>\<open>AVLTree<T>\<close>: the \<open>root\<close> pointer and the vector \<open>sortedElements\<close>.\<close>

record 'a AVLTree =
  root_node :: "'a AVLNode"
  sortedElements :: "'a list"

fun height :: "'a AVLNode \<Rightarrow> int" where
  "height Null = 0"
| "height (Node l k r h) = h"

partial_function (option) buildBalancedTree ::
  "'a list \<Rightarrow> int \<Rightarrow> int \<Rightarrow> 'a AVLNode option" where
  [code]: "buildBalancedTree elems start end' =
    (if start > end' then Some Null
     else
       do {
         s \<leftarrow> int_result (start + end');
         s1 \<leftarrow> int_result (s + 1);
         let mid = s1 sdiv 2;
         k \<leftarrow> subscript elems mid;
         e1 \<leftarrow> int_result (mid - 1);
         l \<leftarrow> buildBalancedTree elems start e1;
         s2 \<leftarrow> int_result (mid + 1);
         r \<leftarrow> buildBalancedTree elems s2 end';
         let lh = height l;
         let rh = height r;
         h \<leftarrow> int_result (1 + max lh rh);
         Some (Node l k r h)
       })"

text \<open>
  \<open>std::lower_bound\<close> on a sorted range: the position of the first element that is not
  less than \<open>key\<close> (the length of the vector for \<open>end()\<close>).
\<close>

definition lower_bound :: "'a::linorder list \<Rightarrow> 'a \<Rightarrow> nat" where
  "lower_bound elems key' = length (takeWhile (\<lambda>x. x < key') elems)"

text \<open>\<open>(int)sortedElements.size() - 1\<close>.\<close>

definition last_index :: "'a list \<Rightarrow> int option" where
  "last_index elems = int_result (to_int (int (length elems)) - 1)"

text \<open>
  \<open>insertRebuild\<close> and \<open>deleteRebuild\<close> change \<open>sortedElements\<close> and return the root
  of a new tree: the result is that pointer with the object's new state.
\<close>

definition insertRebuild :: "'a::linorder \<Rightarrow> 'a AVLTree \<Rightarrow> ('a AVLNode \<times> 'a AVLTree) option" where
  "insertRebuild key' t =
     (let it = lower_bound (sortedElements t) key';
          t' = (if it = length (sortedElements t) \<or> sortedElements t ! it \<noteq> key'
                then t\<lparr>sortedElements :=
                        take it (sortedElements t) @ key' # drop it (sortedElements t)\<rparr>
                else t)
      in do {
           e \<leftarrow> last_index (sortedElements t');
           n \<leftarrow> buildBalancedTree (sortedElements t') 0 e;
           Some (n, t')
         })"

definition deleteRebuild :: "'a::linorder \<Rightarrow> 'a AVLTree \<Rightarrow> ('a AVLNode \<times> 'a AVLTree) option" where
  "deleteRebuild key' t =
     (let it = lower_bound (sortedElements t) key';
          t' = (if it \<noteq> length (sortedElements t) \<and> sortedElements t ! it = key'
                then t\<lparr>sortedElements :=
                        take it (sortedElements t) @ drop (Suc it) (sortedElements t)\<rparr>
                else t)
      in if sortedElements t' = [] then Some (Null, t')
         else do {
           e \<leftarrow> last_index (sortedElements t');
           n \<leftarrow> buildBalancedTree (sortedElements t') 0 e;
           Some (n, t')
         })"

fun searchBST :: "'a::linorder AVLNode \<Rightarrow> 'a \<Rightarrow> bool" where
  "searchBST Null key' = False"
| "searchBST (Node l k r h) key' =
     (if k = key' then True
      else if key' < k then searchBST l key'
      else searchBST r key')"

text \<open>The keys that \<open>inorder\<close> prints, in the order printed.\<close>

fun inorder :: "'a AVLNode \<Rightarrow> 'a list" where
  "inorder Null = []"
| "inorder (Node l k r h) = inorder l @ k # inorder r"

text \<open>The constructor \<open>AVLTree()\<close>.\<close>

definition AVLTree_new :: "'a AVLTree" where
  "AVLTree_new = \<lparr>root_node = Null, sortedElements = []\<rparr>"

definition insert_key :: "'a::linorder \<Rightarrow> 'a AVLTree \<Rightarrow> 'a AVLTree option" where
  "insert_key key' t =
     do { (n, t') \<leftarrow> insertRebuild key' t; Some (t'\<lparr>root_node := n\<rparr>) }"

definition remove_key :: "'a::linorder \<Rightarrow> 'a AVLTree \<Rightarrow> 'a AVLTree option" where
  "remove_key key' t =
     do { (n, t') \<leftarrow> deleteRebuild key' t; Some (t'\<lparr>root_node := n\<rparr>) }"

definition search :: "'a::linorder \<Rightarrow> 'a AVLTree \<Rightarrow> bool" where
  "search key' t = searchBST (root_node t) key'"

definition printInorder :: "'a AVLTree \<Rightarrow> 'a list" where
  "printInorder t = inorder (root_node t)"

text \<open>
  The loop of \<open>getSearchPath\<close>, as a function of \<open>current\<close> and \<open>path\<close>. A pointer in
  the path is represented by the node it points to.
\<close>

fun getSearchPath_from :: "'a::linorder AVLNode \<Rightarrow> 'a \<Rightarrow> 'a AVLNode list \<Rightarrow> 'a AVLNode list" where
  "getSearchPath_from Null key' path = path"
| "getSearchPath_from (Node l k r h) key' path =
     (if k = key' then path @ [Node l k r h]
      else if key' < k then getSearchPath_from l key' (path @ [Node l k r h])
      else getSearchPath_from r key' (path @ [Node l k r h]))"

definition getSearchPath :: "'a::linorder \<Rightarrow> 'a AVLTree \<Rightarrow> 'a AVLNode list" where
  "getSearchPath key' t = getSearchPath_from (root_node t) key' []"

text \<open>
  In \<open>main\<close>: \<open>found = (!path.empty() && path.back()->key == searchVal)\<close>.
\<close>

definition found :: "'a AVLNode list \<Rightarrow> 'a \<Rightarrow> bool" where
  "found path searchVal = (path \<noteq> [] \<and> key (last path) = searchVal)"

text \<open>
  A caller's requests: a sequence of calls of \<open>insert\<close> and \<open>remove\<close> on one tree,
  each on the state the previous one left.
\<close>

datatype 'a request = Insert 'a | Remove 'a

fun perform :: "'a::linorder request \<Rightarrow> 'a AVLTree \<Rightarrow> 'a AVLTree option" where
  "perform (Insert k) t = insert_key k t"
| "perform (Remove k) t = remove_key k t"

fun perform_all :: "'a::linorder request list \<Rightarrow> 'a AVLTree \<Rightarrow> 'a AVLTree option" where
  "perform_all [] t = Some t"
| "perform_all (q # qs) t = do { t' \<leftarrow> perform q t; perform_all qs t' }"


section \<open>The specification's rules\<close>

text \<open>
  The midpoint rule of the specification, on mathematical integers: for an inclusive
  index range \<open>[lo, hi]\<close> the midpoint is \<open>(lo + hi + 1) / 2\<close>.
\<close>

definition midpoint :: "int \<Rightarrow> int \<Rightarrow> int" where
  "midpoint lo hi = (lo + hi + 1) div 2"

text \<open>
  The specification's flat search: while \<open>lo \<le> hi\<close>, probe the midpoint and append it
  to the probe path; return it when the element there equals the target, else continue
  in \<open>[mid + 1, hi]\<close> or \<open>[lo, mid - 1]\<close>; \<open>- 1\<close> is the not-found signal.
\<close>

function FlatBinarySearch_from ::
  "int list \<Rightarrow> int \<Rightarrow> int \<Rightarrow> int \<Rightarrow> int list \<Rightarrow> int \<times> int list" where
  "FlatBinarySearch_from xs target lo hi probePath =
     (if lo \<le> hi then
        (if xs ! nat (midpoint lo hi) = target
           then (midpoint lo hi, probePath @ [midpoint lo hi])
         else if xs ! nat (midpoint lo hi) < target
           then FlatBinarySearch_from xs target (midpoint lo hi + 1) hi
                  (probePath @ [midpoint lo hi])
         else FlatBinarySearch_from xs target lo (midpoint lo hi - 1)
                  (probePath @ [midpoint lo hi]))
      else (- 1, probePath))"
  by pat_completeness auto
termination
  by (relation "measure (\<lambda>(xs, target, lo, hi, probePath). nat (hi - lo + 1))")
     (auto simp: midpoint_def)

declare FlatBinarySearch_from.simps [simp del]

definition FlatBinarySearch :: "int list \<Rightarrow> int \<Rightarrow> int \<times> int list" where
  "FlatBinarySearch xs target =
     FlatBinarySearch_from xs target 0 (int (length xs) - 1) []"

text \<open>
  The specification's \<open>buildFrom\<close>: absent for \<open>lo > hi\<close>, else a node that holds the
  element at the midpoint over the trees of \<open>[lo, mid - 1]\<close> and \<open>[mid + 1, hi]\<close>, with
  height one more than the larger height of the two.
\<close>

function buildFrom :: "'a list \<Rightarrow> int \<Rightarrow> int \<Rightarrow> 'a AVLNode" where
  "buildFrom xs lo hi =
     (if lo > hi then Null
      else Node (buildFrom xs lo (midpoint lo hi - 1))
                (xs ! nat (midpoint lo hi))
                (buildFrom xs (midpoint lo hi + 1) hi)
                (1 + max (height (buildFrom xs lo (midpoint lo hi - 1)))
                         (height (buildFrom xs (midpoint lo hi + 1) hi))))"
  by pat_completeness auto
termination
  by (relation "measure (\<lambda>(xs, lo, hi). nat (hi - lo + 1))")
     (auto simp: midpoint_def)

declare buildFrom.simps [simp del]

text \<open>The elements of \<open>xs\<close> at the indices \<open>lo, \<dots>, hi\<close>.\<close>

definition range_of :: "'a list \<Rightarrow> int \<Rightarrow> int \<Rightarrow> 'a list" where
  "range_of xs lo hi = map (\<lambda>i. xs ! i) [nat lo..<nat (hi + 1)]"

text \<open>Search-tree order: every key on the left is smaller, every key on the right larger.\<close>

fun bst :: "'a::linorder AVLNode \<Rightarrow> bool" where
  "bst Null = True"
| "bst (Node l k r h) =
     (bst l \<and> bst r \<and> (\<forall>x \<in> set (inorder l). x < k) \<and> (\<forall>x \<in> set (inorder r). k < x))"

text \<open>The number of nodes on a longest path from the node down.\<close>

fun depth :: "'a AVLNode \<Rightarrow> nat" where
  "depth Null = 0"
| "depth (Node l k r h) = Suc (max (depth l) (depth r))"

text \<open>At every node the depths of the two subtrees differ by at most one.\<close>

fun balanced :: "'a AVLNode \<Rightarrow> bool" where
  "balanced Null = True"
| "balanced (Node l k r h) =
     (balanced l \<and> balanced r \<and> depth l \<le> depth r + 1 \<and> depth r \<le> depth l + 1)"

text \<open>
  Every \<open>height\<close> field is one more than the larger of the children's heights, an
  absent child counting 0.
\<close>

fun heights_stored :: "'a AVLNode \<Rightarrow> bool" where
  "heights_stored Null = True"
| "heights_stored (Node l k r h) =
     (heights_stored l \<and> heights_stored r \<and> h = 1 + max (height l) (height r))"

text \<open>
  The nodes of a search path form a descent: it starts at the root, every node but the
  last has a key other than the target and is followed by the child on the target's
  side, and the last node holds the target or lacks the child on the target's side.
\<close>

fun descent :: "'a::linorder \<Rightarrow> 'a AVLNode \<Rightarrow> 'a AVLNode list \<Rightarrow> bool" where
  "descent key' Null path = (path = [])"
| "descent key' (Node l k r h) path =
     (case path of
        [] \<Rightarrow> False
      | n # rest \<Rightarrow>
          n = Node l k r h \<and>
          (if k = key' then rest = []
           else if key' < k then descent key' l rest
           else descent key' r rest))"


text \<open>
  The condition in which every call of \<open>insert\<close> and \<open>remove\<close> leaves the object:
  the vector is strictly ascending, short enough for the index arithmetic, and the root
  is the tree built over the whole vector.
\<close>

definition rebuilt :: "'a::linorder AVLTree \<Rightarrow> bool" where
  "rebuilt t \<longleftrightarrow>
     sorted_wrt (<) (sortedElements t) \<and>
     length (sortedElements t) \<le> 1073741824 \<and>
     root_node t = buildFrom (sortedElements t) 0 (int (length (sortedElements t)) - 1)"


section \<open>The flat binary search\<close>

lemma FlatBinarySearch_from_unfold:
  "lo \<le> hi \<Longrightarrow> xs ! nat (midpoint lo hi) = target \<Longrightarrow>
     FlatBinarySearch_from xs target lo hi p = (midpoint lo hi, p @ [midpoint lo hi])"
  "lo \<le> hi \<Longrightarrow> xs ! nat (midpoint lo hi) \<noteq> target \<Longrightarrow> xs ! nat (midpoint lo hi) < target \<Longrightarrow>
     FlatBinarySearch_from xs target lo hi p =
     FlatBinarySearch_from xs target (midpoint lo hi + 1) hi (p @ [midpoint lo hi])"
  "lo \<le> hi \<Longrightarrow> xs ! nat (midpoint lo hi) \<noteq> target \<Longrightarrow> \<not> xs ! nat (midpoint lo hi) < target \<Longrightarrow>
     FlatBinarySearch_from xs target lo hi p =
     FlatBinarySearch_from xs target lo (midpoint lo hi - 1) (p @ [midpoint lo hi])"
  "\<not> lo \<le> hi \<Longrightarrow> FlatBinarySearch_from xs target lo hi p = (- 1, p)"
  by (subst FlatBinarySearch_from.simps, simp)+

lemma int_result_Some:
  "- 2147483648 \<le> x \<Longrightarrow> x \<le> 2147483647 \<Longrightarrow> int_result x = Some x"
  by (simp add: int_result_def INT_MIN_def INT_MAX_def)

lemma int_result_None:
  "2147483647 < x \<Longrightarrow> int_result x = None"
  by (simp add: int_result_def INT_MAX_def)

lemma sdiv_2_nonneg: "0 \<le> k \<Longrightarrow> k sdiv 2 = k div 2" for k :: int
  by (simp add: signed_divide_int_def sgn_if)

lemma subscript_Some:
  "0 \<le> i \<Longrightarrow> i < int (length v) \<Longrightarrow> subscript v i = Some (v ! nat i)"
  by (simp add: subscript_def)

lemma midpoint_bounds:
  "lo \<le> hi \<Longrightarrow> lo \<le> midpoint lo hi \<and> midpoint lo hi \<le> hi"
  by (simp add: midpoint_def) linarith

lemma print_path_in_range:
  "\<forall>i \<in> set p. 0 \<le> i \<and> i < int (length arr) \<Longrightarrow>
   print_path arr p = Some (map (\<lambda>i. arr ! nat i) p)"
  by (induction p) (simp_all add: subscript_Some)

text \<open>One turn of the source's loop, when its arithmetic and its access are defined.\<close>

lemma binarySearch_from_step:
  assumes "0 \<le> lo" "lo \<le> hi" "hi < int (length arr)" "hi < 1073741824"
  shows "binarySearch_from arr target lo hi path =
    (if arr ! nat (midpoint lo hi) = target
       then do { out \<leftarrow> print_path arr (path @ [midpoint lo hi]);
                 Some (midpoint lo hi, path @ [midpoint lo hi], out) }
     else if arr ! nat (midpoint lo hi) < target
       then binarySearch_from arr target (midpoint lo hi + 1) hi (path @ [midpoint lo hi])
     else binarySearch_from arr target lo (midpoint lo hi - 1) (path @ [midpoint lo hi]))"
proof -
  have m: "lo \<le> midpoint lo hi" "midpoint lo hi \<le> hi"
    using midpoint_bounds [OF assms(2)] by simp_all
  have s: "int_result (lo + hi) = Some (lo + hi)"
    "int_result (lo + hi + 1) = Some (lo + hi + 1)"
    "int_result (midpoint lo hi + 1) = Some (midpoint lo hi + 1)"
    "int_result (midpoint lo hi - 1) = Some (midpoint lo hi - 1)"
    using assms m by (simp_all add: int_result_Some)
  have d: "(lo + hi + 1) sdiv 2 = midpoint lo hi"
    using assms by (simp add: sdiv_2_nonneg midpoint_def)
  have a: "subscript arr (midpoint lo hi) = Some (arr ! nat (midpoint lo hi))"
    using assms m by (simp add: subscript_Some)
  show ?thesis
    by (subst binarySearch_from.simps) (simp add: assms s d a Let_def)
qed

lemma binarySearch_from_exit:
  "hi < lo \<Longrightarrow> binarySearch_from arr target lo hi path =
     do { out \<leftarrow> print_path arr path; Some (- 1, path, out) }"
  by (subst binarySearch_from.simps) simp

lemma binarySearch_from_refines:
  assumes "0 \<le> lo" "hi < int (length arr)" "hi < 1073741824"
    and "\<forall>i \<in> set path. 0 \<le> i \<and> i < int (length arr)"
  shows "binarySearch_from arr target lo hi path =
     Some (fst (FlatBinarySearch_from arr target lo hi path),
           snd (FlatBinarySearch_from arr target lo hi path),
           map (\<lambda>i. arr ! nat i) (snd (FlatBinarySearch_from arr target lo hi path)))"
  using assms
proof (induction arr target lo hi path rule: FlatBinarySearch_from.induct)
  case (1 xs target lo hi probePath)
  show ?case
  proof (cases "lo \<le> hi")
    case False
    then show ?thesis
      using "1.prems" by (simp add: binarySearch_from_exit print_path_in_range FlatBinarySearch_from_unfold(4))
  next
    case True
    have m: "lo \<le> midpoint lo hi" "midpoint lo hi \<le> hi"
      using midpoint_bounds [OF True] by simp_all
    have p: "\<forall>i \<in> set (probePath @ [midpoint lo hi]). 0 \<le> i \<and> i < int (length xs)"
      using "1.prems" m by auto
    note step = binarySearch_from_step [OF "1.prems"(1) True "1.prems"(2,3)]
    show ?thesis
    proof (cases "xs ! nat (midpoint lo hi) = target")
      case eq: True
      show ?thesis
        using True eq print_path_in_range [OF p] by (simp add: step FlatBinarySearch_from_unfold(1))
    next
      case ne: False
      show ?thesis
      proof (cases "xs ! nat (midpoint lo hi) < target")
        case lt: True
        have "binarySearch_from xs target (midpoint lo hi + 1) hi (probePath @ [midpoint lo hi]) =
          Some (fst (FlatBinarySearch_from xs target (midpoint lo hi + 1) hi (probePath @ [midpoint lo hi])),
           snd (FlatBinarySearch_from xs target (midpoint lo hi + 1) hi (probePath @ [midpoint lo hi])),
           map (\<lambda>i. xs ! nat i) (snd (FlatBinarySearch_from xs target (midpoint lo hi + 1) hi (probePath @ [midpoint lo hi]))))"
          using "1.IH"(1) [OF True ne lt] "1.prems" m p by simp
        then show ?thesis
          using True ne lt by (simp add: step FlatBinarySearch_from_unfold(2))
      next
        case ge: False
        have "binarySearch_from xs target lo (midpoint lo hi - 1) (probePath @ [midpoint lo hi]) =
          Some (fst (FlatBinarySearch_from xs target lo (midpoint lo hi - 1) (probePath @ [midpoint lo hi])),
           snd (FlatBinarySearch_from xs target lo (midpoint lo hi - 1) (probePath @ [midpoint lo hi])),
           map (\<lambda>i. xs ! nat i) (snd (FlatBinarySearch_from xs target lo (midpoint lo hi - 1) (probePath @ [midpoint lo hi]))))"
          using "1.IH"(2) [OF True ne ge] "1.prems" m p by simp
        then show ?thesis
          using True ne ge by (simp add: step FlatBinarySearch_from_unfold(3))
      qed
    qed
  qed
qed


lemma FlatBinarySearch_from_path:
  assumes "0 \<le> lo" "hi < int (length xs)"
    and "\<forall>i \<in> set probePath. 0 \<le> i \<and> i < int (length xs)"
  shows "\<forall>i \<in> set (snd (FlatBinarySearch_from xs target lo hi probePath)).
           0 \<le> i \<and> i < int (length xs)"
  using assms
proof (induction xs target lo hi probePath rule: FlatBinarySearch_from.induct)
  case (1 xs target lo hi probePath)
  show ?case
  proof (cases "lo \<le> hi")
    case False
    then show ?thesis using "1.prems" by (simp add: FlatBinarySearch_from_unfold(4))
  next
    case True
    have m: "lo \<le> midpoint lo hi" "midpoint lo hi \<le> hi"
      using midpoint_bounds [OF True] by simp_all
    have p: "\<forall>i \<in> set (probePath @ [midpoint lo hi]). 0 \<le> i \<and> i < int (length xs)"
      using "1.prems" m by auto
    consider (eq) "xs ! nat (midpoint lo hi) = target"
      | (lt) "xs ! nat (midpoint lo hi) \<noteq> target" "xs ! nat (midpoint lo hi) < target"
      | (gt) "xs ! nat (midpoint lo hi) \<noteq> target" "\<not> xs ! nat (midpoint lo hi) < target"
      by blast
    then show ?thesis
    proof cases
      case eq
      then show ?thesis using True p by (simp add: FlatBinarySearch_from_unfold(1))
    next
      case lt
      have "\<forall>i \<in> set (snd (FlatBinarySearch_from xs target (midpoint lo hi + 1) hi
              (probePath @ [midpoint lo hi]))). 0 \<le> i \<and> i < int (length xs)"
        using "1.IH"(1) [OF True lt] "1.prems" m p by simp
      then show ?thesis using True lt by (simp add: FlatBinarySearch_from_unfold(2))
    next
      case gt
      have "\<forall>i \<in> set (snd (FlatBinarySearch_from xs target lo (midpoint lo hi - 1)
              (probePath @ [midpoint lo hi]))). 0 \<le> i \<and> i < int (length xs)"
        using "1.IH"(2) [OF True gt] "1.prems" m p by simp
      then show ?thesis using True gt by (simp add: FlatBinarySearch_from_unfold(3))
    qed
  qed
qed

text \<open>What the specification's loop returns: the not-found signal with a path that
  extends the given one, or a probed index in the range that holds the target and ends
  the path.\<close>

lemma FlatBinarySearch_from_result:
  "(fst (FlatBinarySearch_from xs target lo hi probePath) = - 1 \<or>
      (lo \<le> fst (FlatBinarySearch_from xs target lo hi probePath) \<and>
       fst (FlatBinarySearch_from xs target lo hi probePath) \<le> hi \<and>
       xs ! nat (fst (FlatBinarySearch_from xs target lo hi probePath)) = target \<and>
       last (snd (FlatBinarySearch_from xs target lo hi probePath)) =
         fst (FlatBinarySearch_from xs target lo hi probePath))) \<and>
   (\<exists>rest. snd (FlatBinarySearch_from xs target lo hi probePath) = probePath @ rest \<and>
      (lo \<le> hi \<longrightarrow> rest \<noteq> [] \<and> hd rest = midpoint lo hi))"
proof (induction xs target lo hi probePath rule: FlatBinarySearch_from.induct)
  case (1 xs target lo hi probePath)
  show ?case
  proof (cases "lo \<le> hi")
    case False
    then show ?thesis by (simp add: FlatBinarySearch_from_unfold(4))
  next
    case True
    have m: "lo \<le> midpoint lo hi" "midpoint lo hi \<le> hi"
      using midpoint_bounds [OF True] by simp_all
    consider (eq) "xs ! nat (midpoint lo hi) = target"
      | (lt) "xs ! nat (midpoint lo hi) \<noteq> target" "xs ! nat (midpoint lo hi) < target"
      | (gt) "xs ! nat (midpoint lo hi) \<noteq> target" "\<not> xs ! nat (midpoint lo hi) < target"
      by blast
    then show ?thesis
    proof cases
      case eq
      then show ?thesis using True m by (simp add: FlatBinarySearch_from_unfold(1))
    next
      case lt
      show ?thesis
        using "1.IH"(1) [OF True lt] True m
        unfolding FlatBinarySearch_from_unfold(2) [OF True lt] by auto
    next
      case gt
      show ?thesis
        using "1.IH"(2) [OF True gt] True m
        unfolding FlatBinarySearch_from_unfold(3) [OF True gt] by auto
    qed
  qed
qed

lemma sorted_nth_le:
  "sorted xs \<Longrightarrow> 0 \<le> i \<Longrightarrow> i \<le> j \<Longrightarrow> j < int (length xs) \<Longrightarrow> xs ! nat i \<le> xs ! nat j"
  for i j :: int
  by (simp add: sorted_nth_mono)

lemma FlatBinarySearch_from_complete:
  assumes "sorted xs" "0 \<le> lo" "hi < int (length xs)"
  shows "(fst (FlatBinarySearch_from xs target lo hi probePath) = - 1) =
         (\<forall>i. lo \<le> i \<and> i \<le> hi \<longrightarrow> xs ! nat i \<noteq> target)"
  using assms
proof (induction xs target lo hi probePath rule: FlatBinarySearch_from.induct)
  case (1 xs target lo hi probePath)
  show ?case
  proof (cases "lo \<le> hi")
    case False
    then show ?thesis by (simp add: FlatBinarySearch_from_unfold(4))
  next
    case True
    have m: "lo \<le> midpoint lo hi" "midpoint lo hi \<le> hi"
      using midpoint_bounds [OF True] by simp_all
    consider (eq) "xs ! nat (midpoint lo hi) = target"
      | (lt) "xs ! nat (midpoint lo hi) \<noteq> target" "xs ! nat (midpoint lo hi) < target"
      | (gt) "xs ! nat (midpoint lo hi) \<noteq> target" "\<not> xs ! nat (midpoint lo hi) < target"
      by blast
    then show ?thesis
    proof cases
      case eq
      have "midpoint lo hi \<noteq> - 1" using m "1.prems" by simp
      moreover have "\<exists>i. lo \<le> i \<and> i \<le> hi \<and> xs ! nat i = target"
        using eq m by blast
      ultimately show ?thesis using True eq by (simp add: FlatBinarySearch_from_unfold(1))
    next
      case lt
      have ih: "(fst (FlatBinarySearch_from xs target (midpoint lo hi + 1) hi
                   (probePath @ [midpoint lo hi])) = - 1) =
                (\<forall>i. midpoint lo hi + 1 \<le> i \<and> i \<le> hi \<longrightarrow> xs ! nat i \<noteq> target)"
        using "1.IH"(1) [OF True lt] "1.prems" m by simp
      have low: "xs ! nat i \<noteq> target" if "lo \<le> i" "i \<le> midpoint lo hi" for i
      proof -
        have "xs ! nat i \<le> xs ! nat (midpoint lo hi)"
          using that "1.prems" m by (intro sorted_nth_le) simp_all
        then show ?thesis using lt by simp
      qed
      have "(\<forall>i. midpoint lo hi + 1 \<le> i \<and> i \<le> hi \<longrightarrow> xs ! nat i \<noteq> target) =
            (\<forall>i. lo \<le> i \<and> i \<le> hi \<longrightarrow> xs ! nat i \<noteq> target)"
      proof
        assume a: "\<forall>i. midpoint lo hi + 1 \<le> i \<and> i \<le> hi \<longrightarrow> xs ! nat i \<noteq> target"
        show "\<forall>i. lo \<le> i \<and> i \<le> hi \<longrightarrow> xs ! nat i \<noteq> target"
        proof (intro allI impI)
          fix i assume "lo \<le> i \<and> i \<le> hi"
          then show "xs ! nat i \<noteq> target"
            using a low [of i] by (cases "i \<le> midpoint lo hi") simp_all
        qed
      next
        assume "\<forall>i. lo \<le> i \<and> i \<le> hi \<longrightarrow> xs ! nat i \<noteq> target"
        then show "\<forall>i. midpoint lo hi + 1 \<le> i \<and> i \<le> hi \<longrightarrow> xs ! nat i \<noteq> target"
          using m by simp
      qed
      then show ?thesis using True lt ih by (simp add: FlatBinarySearch_from_unfold(2))
    next
      case gt
      have ih: "(fst (FlatBinarySearch_from xs target lo (midpoint lo hi - 1)
                   (probePath @ [midpoint lo hi])) = - 1) =
                (\<forall>i. lo \<le> i \<and> i \<le> midpoint lo hi - 1 \<longrightarrow> xs ! nat i \<noteq> target)"
        using "1.IH"(2) [OF True gt] "1.prems" m by simp
      have high: "xs ! nat i \<noteq> target" if "midpoint lo hi \<le> i" "i \<le> hi" for i
      proof -
        have "xs ! nat (midpoint lo hi) \<le> xs ! nat i"
          using that "1.prems" m by (intro sorted_nth_le) simp_all
        then show ?thesis using gt by simp
      qed
      have "(\<forall>i. lo \<le> i \<and> i \<le> midpoint lo hi - 1 \<longrightarrow> xs ! nat i \<noteq> target) =
            (\<forall>i. lo \<le> i \<and> i \<le> hi \<longrightarrow> xs ! nat i \<noteq> target)"
      proof
        assume a: "\<forall>i. lo \<le> i \<and> i \<le> midpoint lo hi - 1 \<longrightarrow> xs ! nat i \<noteq> target"
        show "\<forall>i. lo \<le> i \<and> i \<le> hi \<longrightarrow> xs ! nat i \<noteq> target"
        proof (intro allI impI)
          fix i assume "lo \<le> i \<and> i \<le> hi"
          then show "xs ! nat i \<noteq> target"
            using a high [of i] by (cases "i \<le> midpoint lo hi - 1") simp_all
        qed
      next
        assume "\<forall>i. lo \<le> i \<and> i \<le> hi \<longrightarrow> xs ! nat i \<noteq> target"
        then show "\<forall>i. lo \<le> i \<and> i \<le> midpoint lo hi - 1 \<longrightarrow> xs ! nat i \<noteq> target"
          using m by simp
      qed
      then show ?thesis using True gt ih by (simp add: FlatBinarySearch_from_unfold(3))
    qed
  qed
qed


lemma to_int_small: "0 \<le> x \<Longrightarrow> x \<le> 2147483647 \<Longrightarrow> to_int x = x"
  and to_int_minus_1: "to_int (- 1) = - 1"
  by (simp_all add: to_int_def)

lemma binarySearch_refines:
  assumes "length arr \<le> 1073741824"
  shows "binarySearch arr target =
     Some (fst (FlatBinarySearch arr target), snd (FlatBinarySearch arr target),
           map (\<lambda>i. arr ! nat i) (snd (FlatBinarySearch arr target)))"
proof -
  have h: "to_int (int (length arr) - 1) = int (length arr) - 1"
    using assms by (cases "length arr = 0") (simp_all add: to_int_minus_1 to_int_small)
  show ?thesis
    unfolding binarySearch_def FlatBinarySearch_def h
    using assms by (intro binarySearch_from_refines) simp_all
qed

text \<open>
  Claim C10, as the code has it. On a vector of at most \<open>2 ^ 30\<close> elements
  \<open>binarySearch\<close> has a defined result, so every \<open>arr[mid]\<close> it evaluated was inside the
  vector, and every index it put on its path satisfies \<open>0 \<le> mid < length\<close>. On the empty
  vector it returns \<open>- 1\<close> at once, with an empty path and nothing printed.
\<close>

theorem binarySearch_in_bounds:
  "(length arr \<le> 1073741824 \<longrightarrow>
      (\<exists>r path out. binarySearch arr target = Some (r, path, out) \<and>
         (\<forall>mid \<in> set path. 0 \<le> mid \<and> mid < int (length arr)))) \<and>
   binarySearch [] target = Some (- 1, [], [])"
proof (intro conjI impI)
  assume len: "length arr \<le> 1073741824"
  have "\<forall>mid \<in> set (snd (FlatBinarySearch arr target)). 0 \<le> mid \<and> mid < int (length arr)"
    unfolding FlatBinarySearch_def by (intro FlatBinarySearch_from_path) simp_all
  then show "\<exists>r path out. binarySearch arr target = Some (r, path, out) \<and>
         (\<forall>mid \<in> set path. 0 \<le> mid \<and> mid < int (length arr))"
    using binarySearch_refines [OF len] by blast
next
  show "binarySearch [] target = Some (- 1, [], [])"
    by (simp add: binarySearch_def to_int_minus_1 binarySearch_from_exit)
qed

theorem binarySearch_in_bounds_witness:
  "length [15, 23, 29 :: int] \<le> 1073741824 \<and>
   binarySearch [15, 23, 29] 16 \<noteq> None \<and>
   binarySearch [] 16 = Some (- 1, [], [])"
  using binarySearch_in_bounds [of "[15, 23, 29]" 16] by auto

text \<open>
  Claim C10 as stated, for every input sequence, fails on a vector of \<open>2 ^ 31 - 1\<close>
  zeros searched for 1: the first probe is index \<open>2 ^ 30 - 1\<close>, the search continues in
  \<open>[2 ^ 30, 2 ^ 31 - 2]\<close>, and there \<open>low + high\<close> exceeds \<open>INT_MAX\<close>: no index is
  defined for the second probe.
\<close>

theorem binarySearch_overflow_counterexample:
  "length (replicate 2147483647 (0::int)) = 2147483647 \<and>
   binarySearch (replicate 2147483647 0) 1 = None"
proof -
  have h: "to_int (int (length (replicate 2147483647 (0::int))) - 1) = 2147483646"
    by (simp add: to_int_def)
  have a: "subscript (replicate 2147483647 (0::int)) 1073741823 = Some 0"
    by (simp add: subscript_def)
  have r: "int_result 2147483646 = Some 2147483646" "int_result 2147483647 = Some 2147483647"
    "int_result 1073741824 = Some 1073741824" "int_result 3221225470 = None"
    by (simp_all add: int_result_def INT_MAX_def INT_MIN_def)
  have d: "(2147483647::int) sdiv 2 = 1073741823"
    by (simp add: signed_divide_int_def)
  have "binarySearch_from (replicate 2147483647 0) 1 1073741824 2147483646 [1073741823] = None"
    by (subst binarySearch_from.simps) (simp add: r)
  then have "binarySearch_from (replicate 2147483647 0) 1 0 2147483646 [] = None"
    by (subst binarySearch_from.simps) (simp add: r d a)
  then have "binarySearch (replicate 2147483647 0) 1 = None"
    unfolding binarySearch_def h .
  then show ?thesis by simp
qed

text \<open>
  Claim C4, as the code has it. On an ascending vector of at most \<open>2 ^ 30\<close> elements
  \<open>binarySearch\<close> returns what the specification's loop returns, index and probe path,
  and prints the elements at the probed indices. The index is \<open>- 1\<close> or the position of
  an element equal to the target, which is then the last entry of the path; it is
  \<open>- 1\<close> exactly when the target does not occur in the vector.
\<close>

theorem binarySearch_follows_loop:
  assumes "sorted arr" and "length arr \<le> 1073741824"
  shows "\<exists>r path out. binarySearch arr target = Some (r, path, out) \<and>
     (r, path) = FlatBinarySearch arr target \<and>
     out = map (\<lambda>i. arr ! nat i) path \<and>
     (r = - 1 \<or> (0 \<le> r \<and> r < int (length arr) \<and> arr ! nat r = target \<and> last path = r)) \<and>
     (r = - 1) = (target \<notin> set arr)"
proof -
  let ?r = "fst (FlatBinarySearch arr target)"
  let ?p = "snd (FlatBinarySearch arr target)"
  have res: "?r = - 1 \<or> (0 \<le> ?r \<and> ?r < int (length arr) \<and> arr ! nat ?r = target \<and> last ?p = ?r)"
    using FlatBinarySearch_from_result [of arr target 0 "int (length arr) - 1" "[]"]
    unfolding FlatBinarySearch_def by auto
  have "(?r = - 1) = (\<forall>i. 0 \<le> i \<and> i \<le> int (length arr) - 1 \<longrightarrow> arr ! nat i \<noteq> target)"
    unfolding FlatBinarySearch_def
    by (intro FlatBinarySearch_from_complete assms) simp_all
  also have "\<dots> = (target \<notin> set arr)"
  proof
    assume a: "\<forall>i. 0 \<le> i \<and> i \<le> int (length arr) - 1 \<longrightarrow> arr ! nat i \<noteq> target"
    show "target \<notin> set arr"
    proof
      assume "target \<in> set arr"
      then obtain n where "n < length arr" "arr ! n = target"
        by (auto simp: in_set_conv_nth)
      then show False using a [rule_format, of "int n"] by simp
    qed
  next
    assume n: "target \<notin> set arr"
    show "\<forall>i. 0 \<le> i \<and> i \<le> int (length arr) - 1 \<longrightarrow> arr ! nat i \<noteq> target"
    proof (intro allI impI)
      fix i :: int assume "0 \<le> i \<and> i \<le> int (length arr) - 1"
      then have "nat i < length arr" by linarith
      then have "arr ! nat i \<in> set arr" by (rule nth_mem)
      then show "arr ! nat i \<noteq> target" using n by blast
    qed
  qed
  finally have compl: "(?r = - 1) = (target \<notin> set arr)" .
  show ?thesis
    using binarySearch_refines [OF assms(2), of target] res compl by simp
qed

theorem binarySearch_follows_loop_witness:
  "sorted [15, 23, 29 :: int] \<and> length [15, 23, 29 :: int] \<le> 1073741824 \<and>
   binarySearch [15, 23, 29] 29 = Some (2, [1, 2], [23, 29])"
proof -
  have s: "sorted [15, 23, 29 :: int]" and l: "length [15, 23, 29 :: int] \<le> 1073741824"
    by simp_all
  have f: "FlatBinarySearch [15, 23, 29] 29 = (2, [1, 2])"
    by (simp add: FlatBinarySearch_def FlatBinarySearch_from.simps midpoint_def)
  from binarySearch_follows_loop [OF s l, of 29]
  obtain r path out where "binarySearch [15, 23, 29] 29 = Some (r, path, out)"
    "(r, path) = FlatBinarySearch [15, 23, 29] 29" "out = map (\<lambda>i. [15, 23, 29] ! nat i) path"
    by blast
  then show ?thesis using s f by simp
qed

lemma binarySearch_large_undefined:
  assumes n: "n = 2147483647"
  shows "binarySearch (map int [0..<n]) 2147483647 = None"
proof -
  have h: "to_int (int (length (map int [0..<n])) - 1) = 2147483646"
    by (simp add: to_int_def n)
  have a: "subscript (map int [0..<n]) 1073741823 = Some 1073741823"
    by (simp add: subscript_def n)
  have r: "int_result 2147483646 = Some 2147483646" "int_result 2147483647 = Some 2147483647"
    "int_result 1073741824 = Some 1073741824" "int_result 3221225470 = None"
    by (simp_all add: int_result_def INT_MAX_def INT_MIN_def)
  have d: "(2147483647::int) sdiv 2 = 1073741823"
    by (simp add: signed_divide_int_def)
  have "binarySearch_from (map int [0..<n]) 2147483647 1073741824 2147483646 [1073741823] = None"
    by (subst binarySearch_from.simps) (simp add: r)
  then have "binarySearch_from (map int [0..<n]) 2147483647 0 2147483646 [] = None"
    by (subst binarySearch_from.simps) (simp add: r d a)
  then show ?thesis
    unfolding binarySearch_def h .
qed

text \<open>
  Claim C4 as stated, for every ascending sequence, fails on the vector
  \<open>0, 1, \<dots>, 2 ^ 31 - 2\<close> searched for \<open>2 ^ 31 - 1\<close>: after the first probe the sum
  \<open>low + high\<close> is not representable, and the search has no defined result where the
  specification's loop goes on to return the not-found signal.
\<close>

theorem binarySearch_large_counterexample:
  "sorted (map int [0..<2147483647]) \<and>
   binarySearch (map int [0..<2147483647]) 2147483647 = None"
proof
  show "sorted (map int [0..<2147483647])"
    by (simp add: sorted_map sorted_wrt_iff_nth_less del: upt_Suc)
  show "binarySearch (map int [0..<2147483647]) 2147483647 = None"
    by (rule binarySearch_large_undefined) simp
qed



section \<open>The balanced build\<close>

lemma buildFrom_Null: "hi < lo \<Longrightarrow> buildFrom xs lo hi = Null"
  by (subst buildFrom.simps) simp

lemma buildFrom_Node:
  "lo \<le> hi \<Longrightarrow> buildFrom xs lo hi =
     Node (buildFrom xs lo (midpoint lo hi - 1)) (xs ! nat (midpoint lo hi))
          (buildFrom xs (midpoint lo hi + 1) hi)
          (1 + max (height (buildFrom xs lo (midpoint lo hi - 1)))
                   (height (buildFrom xs (midpoint lo hi + 1) hi)))"
  by (subst buildFrom.simps) simp

lemma height_buildFrom_bounds:
  "0 \<le> height (buildFrom xs lo hi) \<and> height (buildFrom xs lo hi) \<le> max 0 (hi - lo + 1)"
proof (induction xs lo hi rule: buildFrom.induct)
  case (1 xs lo hi)
  show ?case
  proof (cases "lo \<le> hi")
    case False
    then show ?thesis by (simp add: buildFrom_Null)
  next
    case True
    have m: "lo \<le> midpoint lo hi" "midpoint lo hi \<le> hi"
      using midpoint_bounds [OF True] by simp_all
    from True have n: "\<not> hi < lo" by simp
    show ?thesis
      using "1.IH"(1) [OF n] "1.IH"(2) [OF n] m
      by (subst (1 2) buildFrom_Node [OF True]) auto
  qed
qed

lemma buildBalancedTree_refines:
  assumes "0 \<le> lo" "hi < int (length xs)" "hi < 1073741824"
  shows "buildBalancedTree xs lo hi = Some (buildFrom xs lo hi)"
  using assms
proof (induction xs lo hi rule: buildFrom.induct)
  case (1 xs lo hi)
  show ?case
  proof (cases "lo \<le> hi")
    case False
    then show ?thesis
      by (subst buildBalancedTree.simps) (simp add: buildFrom_Null)
  next
    case True
    from True have n: "\<not> hi < lo" by simp
    have m: "lo \<le> midpoint lo hi" "midpoint lo hi \<le> hi"
      using midpoint_bounds [OF True] by simp_all
    have s: "int_result (lo + hi) = Some (lo + hi)"
      "int_result (lo + hi + 1) = Some (lo + hi + 1)"
      "int_result (midpoint lo hi + 1) = Some (midpoint lo hi + 1)"
      "int_result (midpoint lo hi - 1) = Some (midpoint lo hi - 1)"
      using "1.prems" True m by (simp_all add: int_result_Some)
    have d: "(lo + hi + 1) sdiv 2 = midpoint lo hi"
      using "1.prems" True by (simp add: sdiv_2_nonneg midpoint_def)
    have a: "subscript xs (midpoint lo hi) = Some (xs ! nat (midpoint lo hi))"
      using "1.prems" m by (simp add: subscript_Some)
    have l: "buildBalancedTree xs lo (midpoint lo hi - 1) =
               Some (buildFrom xs lo (midpoint lo hi - 1))"
      using "1.IH"(1) [OF n] "1.prems" m by simp
    have r: "buildBalancedTree xs (midpoint lo hi + 1) hi =
               Some (buildFrom xs (midpoint lo hi + 1) hi)"
      using "1.IH"(2) [OF n] "1.prems" m by simp
    have hl: "0 \<le> height (buildFrom xs lo (midpoint lo hi - 1))"
      "height (buildFrom xs lo (midpoint lo hi - 1)) \<le> 1073741824"
      using height_buildFrom_bounds [of xs lo "midpoint lo hi - 1"] "1.prems" m by auto
    have hr: "0 \<le> height (buildFrom xs (midpoint lo hi + 1) hi)"
      "height (buildFrom xs (midpoint lo hi + 1) hi) \<le> 1073741824"
      using height_buildFrom_bounds [of xs "midpoint lo hi + 1" hi] "1.prems" m by auto
    have h: "int_result (1 + max (height (buildFrom xs lo (midpoint lo hi - 1)))
                                 (height (buildFrom xs (midpoint lo hi + 1) hi))) =
             Some (1 + max (height (buildFrom xs lo (midpoint lo hi - 1)))
                           (height (buildFrom xs (midpoint lo hi + 1) hi)))"
      using hl hr by (intro int_result_Some) auto
    show ?thesis
      by (subst buildBalancedTree.simps, subst buildFrom_Node [OF True])
         (simp add: n s d a l r h Let_def)
  qed
qed

lemma range_of_empty: "hi < lo \<Longrightarrow> 0 \<le> lo \<Longrightarrow> range_of xs lo hi = []"
  by (simp add: range_of_def)

lemma range_of_split:
  assumes "0 \<le> lo" "lo \<le> m" "m \<le> hi"
  shows "range_of xs lo hi = range_of xs lo (m - 1) @ xs ! nat m # range_of xs (m + 1) hi"
proof -
  have "[nat lo..<nat (hi + 1)] = [nat lo..<nat m] @ nat m # [nat (m + 1)..<nat (hi + 1)]"
  proof -
    have "[nat lo..<nat m + (nat (hi + 1) - nat m)] =
            [nat lo..<nat m] @ [nat m..<nat m + (nat (hi + 1) - nat m)]"
      using assms by (intro upt_add_eq_append) simp
    moreover have "nat m + (nat (hi + 1) - nat m) = nat (hi + 1)"
      using assms by simp
    ultimately have "[nat lo..<nat (hi + 1)] = [nat lo..<nat m] @ [nat m..<nat (hi + 1)]"
      by simp
    also have "[nat m..<nat (hi + 1)] = nat m # [Suc (nat m)..<nat (hi + 1)]"
      using assms by (intro upt_conv_Cons) auto
    also have "Suc (nat m) = nat (m + 1)"
      using assms by simp
    finally show ?thesis .
  qed
  then show ?thesis
    by (simp add: range_of_def)
qed

lemma range_of_all: "range_of xs 0 (int (length xs) - 1) = xs"
  by (simp add: range_of_def map_nth)

lemma inorder_buildFrom:
  assumes "0 \<le> lo"
  shows "inorder (buildFrom xs lo hi) = range_of xs lo hi"
  using assms
proof (induction xs lo hi rule: buildFrom.induct)
  case (1 xs lo hi)
  show ?case
  proof (cases "lo \<le> hi")
    case False
    then show ?thesis using "1.prems" by (simp add: buildFrom_Null range_of_empty)
  next
    case True
    from True have n: "\<not> hi < lo" by simp
    have m: "lo \<le> midpoint lo hi" "midpoint lo hi \<le> hi"
      using midpoint_bounds [OF True] by simp_all
    have l: "inorder (buildFrom xs lo (midpoint lo hi - 1)) = range_of xs lo (midpoint lo hi - 1)"
      using "1.IH"(1) [OF n] "1.prems" by simp
    have r: "inorder (buildFrom xs (midpoint lo hi + 1) hi) = range_of xs (midpoint lo hi + 1) hi"
      using "1.IH"(2) [OF n] "1.prems" m by simp
    show ?thesis
      by (subst buildFrom_Node [OF True])
         (simp add: l r range_of_split [OF "1.prems" m, symmetric])
  qed
qed

lemma heights_stored_buildFrom: "heights_stored (buildFrom xs lo hi)"
proof (induction xs lo hi rule: buildFrom.induct)
  case (1 xs lo hi)
  show ?case
  proof (cases "lo \<le> hi")
    case False
    then show ?thesis by (simp add: buildFrom_Null)
  next
    case True
    from True have n: "\<not> hi < lo" by simp
    show ?thesis
      using "1.IH"(1) [OF n] "1.IH"(2) [OF n]
      by (subst buildFrom_Node [OF True]) simp
  qed
qed

lemma height_eq_depth: "heights_stored t \<Longrightarrow> height t = int (depth t)"
  by (induction t) auto

lemma ceillog2_half: "0 < n \<Longrightarrow> ceillog2 (n + 1) = Suc (ceillog2 (n div 2 + 1))"
  by (subst ceillog2_rec) simp

lemma ceillog2_near: "m \<le> n + 1 \<Longrightarrow> ceillog2 (m + 1) \<le> Suc (ceillog2 (n + 1))"
proof -
  assume "m \<le> n + 1"
  then have "ceillog2 (m + 1) \<le> ceillog2 (2 * (n + 1))"
    by (intro ceillog2_mono) simp
  also have "\<dots> = Suc (ceillog2 (n + 1))"
    by (rule ceillog2_rec_even) simp
  finally show ?thesis .
qed

lemma depth_buildFrom:
  assumes "lo \<le> hi + 1"
  shows "depth (buildFrom xs lo hi) = ceillog2 (nat (hi - lo + 1) + 1) \<and> balanced (buildFrom xs lo hi)"
  using assms
proof (induction xs lo hi rule: buildFrom.induct)
  case (1 xs lo hi)
  show ?case
  proof (cases "lo \<le> hi")
    case False
    then have "hi - lo + 1 = 0" using "1.prems" by simp
    then show ?thesis using False by (simp add: buildFrom_Null)
  next
    case True
    from True have n: "\<not> hi < lo" by simp
    have m: "lo \<le> midpoint lo hi" "midpoint lo hi \<le> hi"
      using midpoint_bounds [OF True] by simp_all
    let ?n = "nat (hi - lo + 1)"
    have nl: "nat (midpoint lo hi - 1 - lo + 1) = ?n div 2"
      using True by (simp add: midpoint_def nat_div_distrib) 
    have nr: "nat (hi - (midpoint lo hi + 1) + 1) = (?n - 1) div 2"
      using True unfolding midpoint_def by (simp add: nat_div_distrib nat_diff_distrib)
    have l: "depth (buildFrom xs lo (midpoint lo hi - 1)) = ceillog2 (?n div 2 + 1)"
      "balanced (buildFrom xs lo (midpoint lo hi - 1))"
      using "1.IH"(1) [OF n] m nl by simp_all
    have r: "depth (buildFrom xs (midpoint lo hi + 1) hi) = ceillog2 ((?n - 1) div 2 + 1)"
      "balanced (buildFrom xs (midpoint lo hi + 1) hi)"
      using "1.IH"(2) [OF n] m nr by simp_all
    have pos: "0 < ?n" using True by simp
    have le: "ceillog2 ((?n - 1) div 2 + 1) \<le> ceillog2 (?n div 2 + 1)"
      by (intro ceillog2_mono) (simp add: div_le_mono)
    have near: "ceillog2 (?n div 2 + 1) \<le> Suc (ceillog2 ((?n - 1) div 2 + 1))"
      by (intro ceillog2_near) linarith
    show ?thesis
      using l r le near ceillog2_half [OF pos]
      by (subst (1 2) buildFrom_Node [OF True]) (simp add: max_def)
  qed
qed

lemma bst_sorted: "sorted_wrt (<) (inorder t) \<Longrightarrow> bst t"
  by (induction t) (auto simp: sorted_wrt_append)


lemma ceillog2_as_log: "int (ceillog2 (n + 1)) = \<lceil>log 2 (real (n + 1))\<rceil>"
proof -
  have "0 \<le> log 2 (real (n + 1))" by simp
  then have "0 \<le> \<lceil>log 2 (real (n + 1))\<rceil>" by linarith
  then show ?thesis by (simp add: ceillog2_def)
qed

lemma buildBalancedTree_all:
  assumes "length elems \<le> 1073741824"
  shows "buildBalancedTree elems 0 (int (length elems) - 1) =
           Some (buildFrom elems 0 (int (length elems) - 1))"
  using assms by (intro buildBalancedTree_refines) simp_all

lemma buildFrom_all:
  "inorder (buildFrom elems 0 (int (length elems) - 1)) = elems"
  "heights_stored (buildFrom elems 0 (int (length elems) - 1))"
  "depth (buildFrom elems 0 (int (length elems) - 1)) = ceillog2 (length elems + 1)"
  "balanced (buildFrom elems 0 (int (length elems) - 1))"
  using depth_buildFrom [of 0 "int (length elems) - 1" elems]
  by (simp_all add: inorder_buildFrom range_of_all heights_stored_buildFrom)

text \<open>
  Claim C2, as the code has it. For an ascending list of \<open>n \<le> 2 ^ 30\<close> distinct keys,
  \<open>buildBalancedTree(0, n - 1)\<close> returns a tree whose in-order traversal is the list,
  whose depth and whose root \<open>height\<close> field are both \<open>\<lceil>log\<^sub>2 (n + 1)\<rceil>\<close>, in which every
  \<open>height\<close> field is one more than the larger height of the node's children (0 for an
  absent child), and which is a search tree.
\<close>

theorem buildBalancedTree_correct:
  assumes "sorted_wrt (<) elems" and "length elems \<le> 1073741824"
  shows "\<exists>t. buildBalancedTree elems 0 (int (length elems) - 1) = Some t \<and>
     inorder t = elems \<and>
     int (depth t) = \<lceil>log 2 (real (length elems + 1))\<rceil> \<and>
     height t = \<lceil>log 2 (real (length elems + 1))\<rceil> \<and>
     heights_stored t \<and> bst t"
proof -
  let ?t = "buildFrom elems 0 (int (length elems) - 1)"
  have "height ?t = int (depth ?t)"
    by (intro height_eq_depth buildFrom_all)
  moreover have "bst ?t"
    using assms(1) by (intro bst_sorted) (simp add: buildFrom_all)
  moreover have "int (depth ?t) = \<lceil>log 2 (real (length elems + 1))\<rceil>"
    using buildFrom_all(3) [of elems] ceillog2_as_log [of "length elems"] by simp
  ultimately show ?thesis
    using buildBalancedTree_all [OF assms(2)] buildFrom_all(1,2) [of elems]
    by simp
qed

theorem buildBalancedTree_correct_witness:
  "sorted_wrt (<) [15, 23, 29 :: int] \<and> length [15, 23, 29 :: int] \<le> 1073741824 \<and>
   buildBalancedTree [15, 23, 29 :: int] 0 2 \<noteq> None \<and>
   map_option inorder (buildBalancedTree [15, 23, 29 :: int] 0 2) = Some [15, 23, 29] \<and>
   map_option height (buildBalancedTree [15, 23, 29 :: int] 0 2) = Some 2"
proof -
  have s: "sorted_wrt (<) [15, 23, 29 :: int]" and l: "length [15, 23, 29 :: int] \<le> 1073741824"
    by simp_all
  have "\<lceil>log 2 (real (length [15, 23, 29 :: int] + 1))\<rceil> = 2"
  proof -
    have "log 2 (real (length [15, 23, 29 :: int] + 1)) = log 2 (2 ^ 2)" by simp
    also have "\<dots> = 2" by (subst log_pow_cancel) simp_all
    finally show ?thesis by simp
  qed
  then show ?thesis
    using buildBalancedTree_correct [OF s l] s by auto
qed

lemma buildBalancedTree_large_undefined:
  assumes n: "n = 2147483647"
  shows "buildBalancedTree [0..<n] 0 (int (length [0..<n]) - 1) = None"
proof -
  have h: "int (length [0..<n]) - 1 = 2147483646"
    by (simp add: n)
  have a: "subscript [0..<n] 1073741823 = Some 1073741823"
    by (simp add: subscript_def n)
  have r: "int_result 2147483646 = Some 2147483646" "int_result 2147483647 = Some 2147483647"
    "int_result 1073741824 = Some 1073741824" "int_result 1073741822 = Some 1073741822"
    "int_result 3221225470 = None"
    by (simp_all add: int_result_def INT_MAX_def INT_MIN_def)
  have d: "(2147483647::int) sdiv 2 = 1073741823"
    by (simp add: signed_divide_int_def)
  have l: "buildBalancedTree [0..<n] 0 1073741822 = Some (buildFrom [0..<n] 0 1073741822)"
    by (intro buildBalancedTree_refines) (simp_all add: n)
  have "buildBalancedTree [0..<n] 1073741824 2147483646 = None"
    by (subst buildBalancedTree.simps) (simp add: r)
  then have "buildBalancedTree [0..<n] 0 2147483646 = None"
    by (subst buildBalancedTree.simps) (simp add: r d a l)
  then show ?thesis
    unfolding h .
qed

text \<open>
  Claim C2 as stated, for any \<open>n\<close>, fails on the keys \<open>0, 1, \<dots>, 2 ^ 31 - 2\<close>: the root
  is index \<open>2 ^ 30 - 1\<close>, its left subtree is built, and the call for the right subtree
  \<open>[2 ^ 30, 2 ^ 31 - 2]\<close> adds two indices whose sum exceeds \<open>INT_MAX\<close>.
\<close>

theorem buildBalancedTree_large_counterexample:
  "sorted_wrt (<) [0..<2147483647] \<and>
   buildBalancedTree [0..<2147483647] 0 (int (length [0..<2147483647]) - 1) = None"
proof
  show "sorted_wrt (<) [0..<2147483647]"
    by (simp add: sorted_wrt_iff_nth_less del: upt_Suc)
  show "buildBalancedTree [0..<2147483647] 0 (int (length [0..<2147483647]) - 1) = None"
    by (rule buildBalancedTree_large_undefined) simp
qed

text \<open>
  Claim C3, as the code has it. The midpoint of \<open>[lo, hi]\<close> is \<open>(lo + hi + 1) div 2\<close>
  (2 for \<open>[0, 3]\<close> and for \<open>[0, 4]\<close>). For every index range \<open>0 \<le> lo \<le> hi\<close> of a vector
  with \<open>hi < 2 ^ 30\<close>, the next index the flat search puts on its path is that midpoint
  and the root \<open>buildBalancedTree\<close> makes for the range holds the element there; at
  every later step and recursion level too, since the search returns what the
  specification's loop returns and the builder the specification's tree, both of which
  take the midpoint at each level.
\<close>

theorem midpoint_shared:
  assumes "0 \<le> lo" and "lo \<le> hi" and "hi < 1073741824"
    and "hi < int (length arr)" and "hi < int (length elems)"
    and "\<forall>i \<in> set path. 0 \<le> i \<and> i < int (length arr)"
  shows "midpoint lo hi = (lo + hi + 1) div 2 \<and> midpoint 0 3 = 2 \<and> midpoint 0 4 = 2 \<and>
    (\<exists>r rest out. binarySearch_from arr target lo hi path =
        Some (r, path @ (lo + hi + 1) div 2 # rest, out)) \<and>
    (\<exists>l r h. buildBalancedTree elems lo hi =
        Some (Node l (elems ! nat ((lo + hi + 1) div 2)) r h)) \<and>
    map_option (\<lambda>(r, p, out). (r, p)) (binarySearch_from arr target lo hi path) =
      Some (FlatBinarySearch_from arr target lo hi path) \<and>
    buildBalancedTree elems lo hi = Some (buildFrom elems lo hi)"
proof -
  obtain rest where "snd (FlatBinarySearch_from arr target lo hi path) = path @ rest"
    "rest \<noteq> []" "hd rest = midpoint lo hi"
    using FlatBinarySearch_from_result [of arr target lo hi path] assms(2) by blast
  then have p: "snd (FlatBinarySearch_from arr target lo hi path) =
                  path @ (lo + hi + 1) div 2 # tl rest"
    by (cases rest) (simp_all add: midpoint_def)
  show ?thesis
    using binarySearch_from_refines [OF assms(1,4,3,6), of target] p
      buildBalancedTree_refines [OF assms(1,5,3)] buildFrom_Node [OF assms(2), of elems]
    by (simp add: midpoint_def prod_eq_iff)
qed

theorem midpoint_shared_witness:
  "(0::int) \<le> 0 \<and> (0::int) \<le> 3 \<and> (3::int) < 1073741824 \<and>
   3 < int (length [15, 23, 29, 33 :: int]) \<and>
   map_option (\<lambda>(r, p, out). p) (binarySearch_from [15, 23, 29, 33] 23 0 3 []) = Some [2, 1] \<and>
   buildBalancedTree [15, 23, 29, 33 :: int] 0 3 =
     Some (Node (Node (Node Null 15 Null 1) 23 Null 2) 29 (Node Null 33 Null 1) 3)"
proof -
  have f: "FlatBinarySearch_from [15, 23, 29, 33] 23 0 3 [] = (1, [2, 1])"
    by (simp add: FlatBinarySearch_from.simps midpoint_def)
  have b: "buildFrom [15, 23, 29, 33 :: int] 0 3 =
     Node (Node (Node Null 15 Null 1) 23 Null 2) 29 (Node Null 33 Null 1) 3"
    by (simp add: buildFrom.simps midpoint_def)
  have "map_option (\<lambda>(r, p, out). (r, p)) (binarySearch_from [15, 23, 29, 33] 23 0 3 []) =
          Some (FlatBinarySearch_from [15, 23, 29, 33] 23 0 3 []) \<and>
        buildBalancedTree [15, 23, 29, 33 :: int] 0 3 = Some (buildFrom [15, 23, 29, 33] 0 3)"
    using midpoint_shared [of 0 3 "[15, 23, 29, 33]" "[15, 23, 29, 33 :: int]" "[]" 23]
    by simp
  then show ?thesis
    unfolding f b by auto
qed

text \<open>
  Claim C3 as stated, for all \<open>lo \<le> hi\<close>, fails at \<open>lo = hi = 2 ^ 30\<close> in a vector of
  \<open>2 ^ 30 + 1\<close> elements: \<open>lo + hi\<close> is not representable in \<open>int\<close>, and neither the
  search nor the builder has a defined midpoint.
\<close>

theorem midpoint_overflow_counterexample:
  "(0::int) \<le> 1073741824 \<and> (1073741824::int) \<le> 1073741824 \<and>
   1073741824 < int (length (replicate 1073741825 (0::int))) \<and>
   binarySearch_from (replicate 1073741825 0) 0 1073741824 1073741824 [] = None \<and>
   buildBalancedTree (replicate 1073741825 (0::int)) 1073741824 1073741824 = None"
proof -
  have r: "int_result 2147483648 = None"
    by (simp add: int_result_def INT_MAX_def)
  have "binarySearch_from (replicate 1073741825 0) 0 1073741824 1073741824 [] = None"
    by (subst binarySearch_from.simps) (simp add: r)
  moreover have "buildBalancedTree (replicate 1073741825 (0::int)) 1073741824 1073741824 = None"
    by (subst buildBalancedTree.simps) (simp add: r)
  ultimately show ?thesis by simp
qed



section \<open>The sorted vector\<close>

lemma take_lower_bound: "take (lower_bound xs k) xs = takeWhile (\<lambda>x. x < k) xs"
  by (simp add: lower_bound_def takeWhile_eq_take [symmetric])

lemma drop_lower_bound: "drop (lower_bound xs k) xs = dropWhile (\<lambda>x. x < k) xs"
  by (simp add: lower_bound_def dropWhile_eq_drop [symmetric])

lemma lower_bound_le: "lower_bound xs k \<le> length xs"
  by (simp add: lower_bound_def length_takeWhile_le)

lemma dropWhile_sorted_ge:
  "sorted_wrt (<) xs \<Longrightarrow> \<forall>x \<in> set (dropWhile (\<lambda>x. x < k) xs). k \<le> x"
  for k :: "'a::linorder"
proof (induction xs)
  case Nil
  then show ?case by simp
next
  case (Cons a xs)
  show ?case
  proof (cases "a < k")
    case True
    then show ?thesis using Cons by simp
  next
    case False
    then have "k \<le> a" by simp
    moreover have "\<forall>x \<in> set xs. a < x" using Cons.prems by simp
    ultimately have "\<forall>x \<in> set xs. k \<le> x" by fastforce
    then show ?thesis using False \<open>k \<le> a\<close> by simp
  qed
qed

lemma dropWhile_sorted_hd:
  "sorted_wrt (<) xs \<Longrightarrow> k \<in> set xs \<Longrightarrow>
     \<exists>rest. dropWhile (\<lambda>x. x < k) xs = k # rest"
  for k :: "'a::linorder"
  by (induction xs) auto

lemma lower_bound_present:
  fixes k :: "'a::linorder"
  assumes "sorted_wrt (<) xs" "k \<in> set xs"
  shows "lower_bound xs k < length xs \<and> xs ! lower_bound xs k = k"
proof -
  obtain rest where d: "drop (lower_bound xs k) xs = k # rest"
    using dropWhile_sorted_hd [OF assms] by (auto simp: drop_lower_bound)
  then have l: "lower_bound xs k < length xs"
    by (cases "lower_bound xs k < length xs") simp_all
  have "xs ! lower_bound xs k = hd (drop (lower_bound xs k) xs)"
    using l by (simp add: hd_drop_conv_nth)
  then show ?thesis using l d by simp
qed

lemma lower_bound_absent:
  assumes "k \<notin> set xs"
  shows "lower_bound xs k = length xs \<or> xs ! lower_bound xs k \<noteq> k"
proof (cases "lower_bound xs k < length xs")
  case True
  then have "xs ! lower_bound xs k \<in> set xs" by (rule nth_mem)
  then show ?thesis using assms by auto
next
  case False
  then show ?thesis using lower_bound_le [of xs k] by simp
qed

lemma sorted_insert_at_lower_bound:
  fixes k :: "'a::linorder"
  assumes "sorted_wrt (<) xs" "k \<notin> set xs"
  shows "sorted_wrt (<) (take (lower_bound xs k) xs @ k # drop (lower_bound xs k) xs)"
proof -
  let ?A = "takeWhile (\<lambda>x. x < k) xs" and ?B = "dropWhile (\<lambda>x. x < k) xs"
  have "sorted_wrt (<) (?A @ ?B)"
    using assms(1) by simp
  then have sA: "sorted_wrt (<) ?A" and sB: "sorted_wrt (<) ?B"
    unfolding sorted_wrt_append by blast+
  have lt: "\<forall>x \<in> set ?A. x < k"
    by (auto dest: set_takeWhileD)
  have ge: "\<forall>x \<in> set ?B. k \<le> x"
    by (rule dropWhile_sorted_ge [OF assms(1)])
  have ne: "\<forall>x \<in> set ?B. x \<noteq> k"
    using assms(2) by (auto dest: set_dropWhileD)
  have gt: "\<forall>x \<in> set ?B. k < x"
  proof
    fix x assume "x \<in> set ?B"
    then have "k \<le> x" "x \<noteq> k" using ge ne by blast+
    then show "k < x" by simp
  qed
  have cross: "\<forall>x \<in> set ?A. \<forall>y \<in> set (k # ?B). x < y"
  proof (intro ballI)
    fix x y assume "x \<in> set ?A" "y \<in> set (k # ?B)"
    then have "x < k" "k \<le> y" using lt ge by auto
    then show "x < y" by (rule less_le_trans)
  qed
  have "sorted_wrt (<) (k # ?B)"
    using sB gt by simp
  then have "sorted_wrt (<) (?A @ k # ?B)"
    using sA cross unfolding sorted_wrt_append by blast
  then show ?thesis
    unfolding take_lower_bound drop_lower_bound .
qed

lemma set_insert_at: "set (take i xs @ k # drop i xs) = insert k (set xs)"
proof -
  have "set (take i xs) \<union> set (drop i xs) = set (take i xs @ drop i xs)"
    by (simp only: set_append)
  also have "\<dots> = set xs"
    by (simp only: append_take_drop_id)
  finally show ?thesis by simp
qed

lemma length_insert_at: "length (take i xs @ k # drop i xs) = Suc (length xs)"
proof -
  have "length (take i xs @ k # drop i xs) = Suc (length (take i xs @ drop i xs))"
    by simp
  then show ?thesis by simp
qed

lemma lower_bound_after_insert:
  "lower_bound (take (lower_bound xs k) xs @ k # drop (lower_bound xs k) xs) k = lower_bound xs k"
proof -
  have "takeWhile (\<lambda>x. x < k) (takeWhile (\<lambda>x. x < k) xs @ k # dropWhile (\<lambda>x. x < k) xs) =
        takeWhile (\<lambda>x. x < k) xs"
    by (subst takeWhile_append2) (auto dest: set_takeWhileD)
  then show ?thesis
    unfolding take_lower_bound drop_lower_bound by (simp add: lower_bound_def)
qed

lemma erase_after_insert:
  assumes "i \<le> length xs"
  shows "take i (take i xs @ k # drop i xs) @ drop (Suc i) (take i xs @ k # drop i xs) = xs"
  using assms by (simp add: min_absorb2)

lemma sorted_erase: "sorted_wrt (<) xs \<Longrightarrow> sorted_wrt (<) (take i xs @ drop (Suc i) xs)"
  for xs :: "'a::linorder list"
proof -
  assume s: "sorted_wrt (<) xs"
  have "sorted_wrt (<) (take i xs @ drop i xs)" using s by simp
  then have "sorted_wrt (<) (take i xs)" "sorted_wrt (<) (drop i xs)"
    "\<forall>x \<in> set (take i xs). \<forall>y \<in> set (drop i xs). x < y"
    unfolding sorted_wrt_append by simp_all
  moreover have "sorted_wrt (<) (drop (Suc i) xs)"
    using s by (rule sorted_wrt_drop)
  moreover have "set (drop (Suc i) xs) \<subseteq> set (drop i xs)"
    by (rule set_drop_subset_set_drop) simp
  ultimately show ?thesis
    unfolding sorted_wrt_append by blast
qed

lemma length_erase: "i < length xs \<Longrightarrow> length (take i xs @ drop (Suc i) xs) = length xs - 1"
  by simp

lemma set_erase:
  fixes xs :: "'a::linorder list"
  assumes "sorted_wrt (<) xs" "i < length xs"
  shows "set (take i xs @ drop (Suc i) xs) = set xs - {xs ! i}"
proof -
  have d: "distinct xs" using assms(1) by (simp add: strict_sorted_iff)
  have xs: "xs = take i xs @ xs ! i # drop (Suc i) xs"
    using assms(2) by (simp add: id_take_nth_drop [symmetric])
  have "distinct (take i xs @ xs ! i # drop (Suc i) xs)" using d xs by simp
  then have "xs ! i \<notin> set (take i xs @ drop (Suc i) xs)" by auto
  moreover have "set xs = insert (xs ! i) (set (take i xs @ drop (Suc i) xs))"
    by (subst xs) simp
  ultimately show ?thesis by auto
qed

section \<open>Insert and remove\<close>

lemma last_index_Some:
  "length xs \<le> 2147483647 \<Longrightarrow> last_index xs = Some (int (length xs) - 1)"
  by (simp add: last_index_def to_int_small int_result_Some)

lemma buildBalancedTree_step:
  assumes "0 \<le> lo" "lo \<le> hi" "hi < int (length xs)" "lo + hi < 2147483647"
  shows "buildBalancedTree xs lo hi =
     do { l \<leftarrow> buildBalancedTree xs lo (midpoint lo hi - 1);
          r \<leftarrow> buildBalancedTree xs (midpoint lo hi + 1) hi;
          h \<leftarrow> int_result (1 + max (height l) (height r));
          Some (Node l (xs ! nat (midpoint lo hi)) r h) }"
proof -
  have m: "lo \<le> midpoint lo hi" "midpoint lo hi \<le> hi"
    using midpoint_bounds [OF assms(2)] by simp_all
  have s: "int_result (lo + hi) = Some (lo + hi)"
    "int_result (lo + hi + 1) = Some (lo + hi + 1)"
    "int_result (midpoint lo hi + 1) = Some (midpoint lo hi + 1)"
    "int_result (midpoint lo hi - 1) = Some (midpoint lo hi - 1)"
    using assms m by (simp_all add: int_result_Some)
  have d: "(lo + hi + 1) sdiv 2 = midpoint lo hi"
    using assms by (simp add: sdiv_2_nonneg midpoint_def)
  have a: "subscript xs (midpoint lo hi) = Some (xs ! nat (midpoint lo hi))"
    using assms m by (simp add: subscript_Some)
  show ?thesis
    using assms(2) by (subst buildBalancedTree.simps) (simp add: s d a Let_def)
qed

text \<open>A vector of \<open>2 ^ 30 + 1\<close> elements cannot be built: the recursion down the right
  spine reaches a range whose bounds add up to more than \<open>INT_MAX\<close>.\<close>

lemma buildBalancedTree_spine_undefined:
  assumes "0 \<le> lo" "lo \<le> 1073741824" "1073741824 < int (length xs)"
  shows "buildBalancedTree xs lo 1073741824 = None"
  using assms
proof (induction "nat (1073741824 - lo)" arbitrary: lo rule: less_induct)
  case less
  show ?case
  proof (cases "lo \<le> 1073741822")
    case False
    then have "lo = 1073741823 \<or> lo = 1073741824" using less.prems by linarith
    then show ?thesis
      by (subst buildBalancedTree.simps) (auto simp: int_result_def INT_MAX_def INT_MIN_def)
  next
    case True
    have m: "lo \<le> midpoint lo 1073741824" "midpoint lo 1073741824 \<le> 1073741823"
      using True less.prems unfolding midpoint_def by linarith+
    have l: "buildBalancedTree xs lo (midpoint lo 1073741824 - 1) =
               Some (buildFrom xs lo (midpoint lo 1073741824 - 1))"
      using less.prems m by (intro buildBalancedTree_refines) simp_all
    have r: "buildBalancedTree xs (midpoint lo 1073741824 + 1) 1073741824 = None"
      using less.prems m by (intro less.hyps) simp_all
    have "buildBalancedTree xs lo 1073741824 =
     do { l \<leftarrow> buildBalancedTree xs lo (midpoint lo 1073741824 - 1);
          r \<leftarrow> buildBalancedTree xs (midpoint lo 1073741824 + 1) 1073741824;
          h \<leftarrow> int_result (1 + max (height l) (height r));
          Some (Node l (xs ! nat (midpoint lo 1073741824)) r h) }"
      using less.prems True by (intro buildBalancedTree_step) simp_all
    then show ?thesis
      by (simp only: l r bind.bind_lunit bind.bind_lzero)
  qed
qed

lemma rebuilt_new: "rebuilt AVLTree_new"
  by (simp add: rebuilt_def AVLTree_new_def buildFrom_Null)

lemma rebuilt_build:
  "rebuilt t \<Longrightarrow>
     buildBalancedTree (sortedElements t) 0 (int (length (sortedElements t)) - 1) =
       Some (root_node t)"
  by (simp add: rebuilt_def buildBalancedTree_all)

lemma insert_key_present:
  assumes "rebuilt t" "k \<in> set (sortedElements t)"
  shows "insert_key k t = Some t"
proof -
  have p: "lower_bound (sortedElements t) k < length (sortedElements t)"
    "sortedElements t ! lower_bound (sortedElements t) k = k"
    using lower_bound_present [of "sortedElements t" k] assms by (simp_all add: rebuilt_def)
  have l: "last_index (sortedElements t) = Some (int (length (sortedElements t)) - 1)"
    using assms(1) by (intro last_index_Some) (simp add: rebuilt_def)
  show ?thesis
    using p by (simp add: insert_key_def insertRebuild_def Let_def l rebuilt_build [OF assms(1)])
qed

lemma insert_key_absent:
  assumes "rebuilt t" "k \<notin> set (sortedElements t)"
    and "length (sortedElements t) < 1073741824"
    and "xs' = take (lower_bound (sortedElements t) k) (sortedElements t) @
               k # drop (lower_bound (sortedElements t) k) (sortedElements t)"
  shows "insert_key k t =
           Some \<lparr>root_node = buildFrom xs' 0 (int (length xs') - 1), sortedElements = xs'\<rparr>"
proof -
  have c: "lower_bound (sortedElements t) k = length (sortedElements t) \<or>
           sortedElements t ! lower_bound (sortedElements t) k \<noteq> k"
    by (rule lower_bound_absent [OF assms(2)])
  have len: "length xs' = Suc (length (sortedElements t))"
    unfolding assms(4) by (rule length_insert_at)
  have l: "last_index xs' = Some (int (length xs') - 1)"
    using assms(3) len by (intro last_index_Some) simp
  have b: "buildBalancedTree xs' 0 (int (length xs') - 1) =
             Some (buildFrom xs' 0 (int (length xs') - 1))"
    using assms(3) len by (intro buildBalancedTree_all) simp
  show ?thesis
    using c l b unfolding insert_key_def insertRebuild_def Let_def assms(4) [symmetric]
    by (cases t) auto
qed

lemma insert_key_full:
  assumes "rebuilt t" "k \<notin> set (sortedElements t)"
    and "length (sortedElements t) = 1073741824"
  shows "insert_key k t = None"
proof -
  let ?xs' = "take (lower_bound (sortedElements t) k) (sortedElements t) @
               k # drop (lower_bound (sortedElements t) k) (sortedElements t)"
  have c: "lower_bound (sortedElements t) k = length (sortedElements t) \<or>
           sortedElements t ! lower_bound (sortedElements t) k \<noteq> k"
    by (rule lower_bound_absent [OF assms(2)])
  have len: "length ?xs' = 1073741825"
    using length_insert_at [of "lower_bound (sortedElements t) k" "sortedElements t" k] assms(3)
    by simp
  have l: "last_index ?xs' = Some 1073741824"
    using last_index_Some [of ?xs'] len by simp
  have b: "buildBalancedTree ?xs' 0 1073741824 = None"
    using len by (intro buildBalancedTree_spine_undefined) simp_all
  show ?thesis
    using c l b unfolding insert_key_def insertRebuild_def Let_def
    by auto
qed

lemma remove_key_absent:
  assumes "rebuilt t" "k \<notin> set (sortedElements t)"
  shows "remove_key k t = Some t"
proof -
  have c: "lower_bound (sortedElements t) k = length (sortedElements t) \<or>
           sortedElements t ! lower_bound (sortedElements t) k \<noteq> k"
    by (rule lower_bound_absent [OF assms(2)])
  have l: "last_index (sortedElements t) = Some (int (length (sortedElements t)) - 1)"
    using assms(1) by (intro last_index_Some) (simp add: rebuilt_def)
  have e: "sortedElements t = [] \<Longrightarrow> root_node t = Null"
    using assms(1) by (simp add: rebuilt_def buildFrom_Null)
  show ?thesis
    using c e unfolding remove_key_def deleteRebuild_def Let_def
    by (auto simp: l rebuilt_build [OF assms(1)])
qed

lemma remove_key_present:
  assumes "rebuilt t" "k \<in> set (sortedElements t)"
    and "xs' = take (lower_bound (sortedElements t) k) (sortedElements t) @
               drop (Suc (lower_bound (sortedElements t) k)) (sortedElements t)"
  shows "remove_key k t =
           Some \<lparr>root_node = buildFrom xs' 0 (int (length xs') - 1), sortedElements = xs'\<rparr>"
proof -
  have p: "lower_bound (sortedElements t) k < length (sortedElements t)"
    "sortedElements t ! lower_bound (sortedElements t) k = k"
    using lower_bound_present [of "sortedElements t" k] assms by (simp_all add: rebuilt_def)
  have len: "length xs' = length (sortedElements t) - 1"
    unfolding assms(3) using p(1) by (rule length_erase)
  then have "length xs' \<le> length (sortedElements t)"
    by simp
  moreover have "length (sortedElements t) \<le> 1073741824"
    using assms(1) by (simp add: rebuilt_def)
  ultimately have small: "length xs' \<le> 1073741824"
    by (rule order_trans)
  have l: "last_index xs' = Some (int (length xs') - 1)"
    using small by (intro last_index_Some) simp
  have b: "buildBalancedTree xs' 0 (int (length xs') - 1) =
             Some (buildFrom xs' 0 (int (length xs') - 1))"
    using small by (rule buildBalancedTree_all)
  have e: "xs' = [] \<Longrightarrow> buildFrom xs' 0 (int (length xs') - 1) = Null"
    by (simp add: buildFrom_Null)
  show ?thesis
    using p l b e unfolding remove_key_def deleteRebuild_def Let_def assms(3) [symmetric]
    by (cases t) auto
qed

lemma rebuilt_insert_key:
  assumes "rebuilt t" "insert_key k t = Some t'"
  shows "rebuilt t' \<and> set (sortedElements t') = insert k (set (sortedElements t)) \<and>
         length (sortedElements t') \<le> Suc (length (sortedElements t))"
proof (cases "k \<in> set (sortedElements t)")
  case True
  then show ?thesis
    using insert_key_present [OF assms(1) True] assms by auto
next
  case False
  let ?xs' = "take (lower_bound (sortedElements t) k) (sortedElements t) @
               k # drop (lower_bound (sortedElements t) k) (sortedElements t)"
  have "length (sortedElements t) \<noteq> 1073741824"
    using insert_key_full [OF assms(1) False] assms(2) by auto
  then have small: "length (sortedElements t) < 1073741824"
    using assms(1) by (simp add: rebuilt_def)
  have t': "t' = \<lparr>root_node = buildFrom ?xs' 0 (int (length ?xs') - 1), sortedElements = ?xs'\<rparr>"
    using insert_key_absent [OF assms(1) False small refl] assms(2) by simp
  have "sorted_wrt (<) ?xs'"
    using assms(1) False by (intro sorted_insert_at_lower_bound) (simp_all add: rebuilt_def)
  moreover have "length ?xs' = Suc (length (sortedElements t))"
    by (rule length_insert_at)
  moreover have "set ?xs' = insert k (set (sortedElements t))"
    by (rule set_insert_at)
  ultimately show ?thesis
    using small unfolding t' rebuilt_def by simp
qed

lemma rebuilt_remove_key:
  assumes "rebuilt t"
  shows "\<exists>t'. remove_key k t = Some t' \<and> rebuilt t' \<and>
           set (sortedElements t') = set (sortedElements t) - {k} \<and>
           length (sortedElements t') \<le> length (sortedElements t)"
proof (cases "k \<in> set (sortedElements t)")
  case False
  then show ?thesis
    using remove_key_absent [OF assms False] assms by auto
next
  case True
  let ?i = "lower_bound (sortedElements t) k"
  let ?xs' = "take ?i (sortedElements t) @ drop (Suc ?i) (sortedElements t)"
  have p: "?i < length (sortedElements t)" "sortedElements t ! ?i = k"
    using lower_bound_present [of "sortedElements t" k] assms True by (simp_all add: rebuilt_def)
  have s: "sorted_wrt (<) (sortedElements t)" and b: "length (sortedElements t) \<le> 1073741824"
    using assms by (simp_all add: rebuilt_def)
  have "sorted_wrt (<) ?xs'"
    using s by (rule sorted_erase)
  moreover have "length ?xs' = length (sortedElements t) - 1"
    using p(1) by (rule length_erase)
  moreover have "set ?xs' = set (sortedElements t) - {k}"
    using set_erase [OF s p(1)] p(2) by simp
  ultimately show ?thesis
    using b remove_key_present [OF assms True refl] unfolding rebuilt_def by simp
qed

lemma rebuilt_perform:
  assumes "rebuilt t" "perform q t = Some t'"
  shows "rebuilt t' \<and> length (sortedElements t') \<le> Suc (length (sortedElements t))"
proof (cases q)
  case (Insert k)
  then have "insert_key k t = Some t'" using assms(2) by simp
  then show ?thesis using rebuilt_insert_key [OF assms(1)] by blast
next
  case (Remove k)
  then have "remove_key k t = Some t'" using assms(2) by simp
  moreover obtain u where "remove_key k t = Some u" "rebuilt u"
    "length (sortedElements u) \<le> length (sortedElements t)"
    using rebuilt_remove_key [OF assms(1), of k] by blast
  ultimately show ?thesis by simp
qed

lemma rebuilt_perform_all:
  "rebuilt t \<Longrightarrow> perform_all qs t = Some t' \<Longrightarrow> rebuilt t'"
proof (induction qs arbitrary: t)
  case Nil
  then show ?case by simp
next
  case (Cons q qs)
  then obtain u where u: "perform q t = Some u" "perform_all qs u = Some t'"
    by (auto split: bind_splits)
  then show ?case
    using Cons.IH [of u] rebuilt_perform [OF Cons.prems(1) u(1)] by simp
qed

lemma perform_defined:
  assumes "rebuilt t" "length (sortedElements t) < 1073741824"
  shows "perform q t \<noteq> None"
proof (cases q)
  case (Insert k)
  show ?thesis
    using insert_key_present [OF assms(1), of k] insert_key_absent [OF assms(1) _ assms(2) refl, of k]
    unfolding Insert by (cases "k \<in> set (sortedElements t)") simp_all
next
  case (Remove k)
  then show ?thesis
    using rebuilt_remove_key [OF assms(1), of k] by auto
qed

lemma perform_all_defined:
  "rebuilt t \<Longrightarrow> length (sortedElements t) + length qs \<le> 1073741824 \<Longrightarrow>
     perform_all qs t \<noteq> None"
proof (induction qs arbitrary: t)
  case Nil
  then show ?case by simp
next
  case (Cons q qs)
  have "perform q t \<noteq> None"
    using Cons.prems by (intro perform_defined) simp_all
  then obtain u where u: "perform q t = Some u" by blast
  have "rebuilt u" "length (sortedElements u) \<le> Suc (length (sortedElements t))"
    using rebuilt_perform [OF Cons.prems(1) u] by simp_all
  then have "perform_all qs u \<noteq> None"
    using Cons.prems by (intro Cons.IH) simp_all
  then show ?case using u by simp
qed

section \<open>Search and the invariant\<close>

lemma searchBST_bst: "bst n \<Longrightarrow> searchBST n k = (k \<in> set (inorder n))"
  by (induction n) auto

lemma getSearchPath_from_append:
  "getSearchPath_from n k path = path @ getSearchPath_from n k []"
proof (induction n arbitrary: path)
  case Null
  then show ?case by simp
next
  case (Node l a r h)
  show ?case
    using Node.IH(1) [of "path @ [Node l a r h]"] Node.IH(2) [of "path @ [Node l a r h]"]
      Node.IH(1) [of "[Node l a r h]"] Node.IH(2) [of "[Node l a r h]"]
    by simp
qed

lemma getSearchPath_from_Node:
  "getSearchPath_from (Node l a r h) k [] =
     Node l a r h # (if a = k then [] else if k < a then getSearchPath_from l k []
                     else getSearchPath_from r k [])"
  using getSearchPath_from_append [of l k "[Node l a r h]"]
    getSearchPath_from_append [of r k "[Node l a r h]"]
  by simp

lemma descent_getSearchPath_from: "descent k n (getSearchPath_from n k [])"
proof (induction n)
  case Null
  then show ?case by simp
next
  case (Node l a r h)
  then show ?case
    by (simp add: getSearchPath_from_Node del: getSearchPath_from.simps(2))
qed

lemma getSearchPath_from_last:
  "bst n \<Longrightarrow> n \<noteq> Null \<Longrightarrow>
     getSearchPath_from n k [] \<noteq> [] \<and> Null \<notin> set (getSearchPath_from n k []) \<and>
     (key (last (getSearchPath_from n k [])) = k) = (k \<in> set (inorder n))"
proof (induction n)
  case Null
  then show ?case by simp
next
  case (Node l a r h)
  have bl: "bst l" and br: "bst r"
    and lt: "\<forall>x \<in> set (inorder l). x < a" and gt: "\<forall>x \<in> set (inorder r). a < x"
    using Node.prems(1) by simp_all
  consider (eq) "a = k" | (left) "a \<noteq> k" "k < a" | (right) "a \<noteq> k" "\<not> k < a"
    by blast
  then show ?case
  proof cases
    case eq
    then show ?thesis
      by (simp add: getSearchPath_from_Node del: getSearchPath_from.simps(2))
  next
    case left
    have nr: "k \<notin> set (inorder r)" using gt left by auto
    show ?thesis
    proof (cases "l = Null")
      case True
      then show ?thesis using left nr
        by (simp add: getSearchPath_from_Node del: getSearchPath_from.simps(2))
    next
      case False
      then show ?thesis using Node.IH(1) [OF bl False] left nr
        by (simp add: getSearchPath_from_Node del: getSearchPath_from.simps(2))
    qed
  next
    case right
    have nl: "k \<notin> set (inorder l)" using lt right by auto
    show ?thesis
    proof (cases "r = Null")
      case True
      then show ?thesis using right nl
        by (simp add: getSearchPath_from_Node del: getSearchPath_from.simps(2))
    next
      case False
      then show ?thesis using Node.IH(2) [OF br False] right nl
        by (simp add: getSearchPath_from_Node del: getSearchPath_from.simps(2))
    qed
  qed
qed

lemma rebuilt_tree:
  assumes "rebuilt t"
  shows "inorder (root_node t) = sortedElements t" "bst (root_node t)"
    "balanced (root_node t)" "heights_stored (root_node t)"
    "depth (root_node t) = ceillog2 (length (sortedElements t) + 1)"
proof -
  have r: "root_node t = buildFrom (sortedElements t) 0 (int (length (sortedElements t)) - 1)"
    and s: "sorted_wrt (<) (sortedElements t)"
    using assms by (simp_all add: rebuilt_def)
  show "inorder (root_node t) = sortedElements t" "balanced (root_node t)"
    "heights_stored (root_node t)"
    "depth (root_node t) = ceillog2 (length (sortedElements t) + 1)"
    unfolding r by (rule buildFrom_all)+
  then show "bst (root_node t)"
    using s by (intro bst_sorted) simp
qed

lemma run_example:
  "perform_all [Insert 15, Insert 29, Insert 23, Remove 15, Insert 33] AVLTree_new =
     Some \<lparr>root_node = Node (Node Null 23 Null 1) 29 (Node Null 33 Null 1) 2,
           sortedElements = [23, 29, 33 :: int]\<rparr>"
  by code_simp

text \<open>
  Claim C1. After every sequence of calls of \<open>insert\<close> and \<open>remove\<close> on a new tree, in
  the state \<open>t\<close> the calls leave, the in-order traversal of the tree is the vector
  \<open>sortedElements\<close> (which is strictly ascending), the tree is a search tree, at every
  node the depths of the two subtrees differ by at most one, and every \<open>height\<close> field
  is the depth of its node. A sequence of at most \<open>2 ^ 30\<close> calls always runs to its end;
  a call that would store key number \<open>2 ^ 30 + 1\<close> has no defined result and leaves no
  state to observe.
\<close>

theorem tree_invariant:
  "(length qs \<le> 1073741824 \<longrightarrow> perform_all qs AVLTree_new \<noteq> None) \<and>
   (\<forall>t. perform_all qs AVLTree_new = Some t \<longrightarrow>
      inorder (root_node t) = sortedElements t \<and> printInorder t = sortedElements t \<and>
      sorted_wrt (<) (sortedElements t) \<and>
      bst (root_node t) \<and> balanced (root_node t) \<and>
      heights_stored (root_node t) \<and> height (root_node t) = int (depth (root_node t)))"
proof (intro conjI impI allI)
  assume "length qs \<le> 1073741824"
  then show "perform_all qs AVLTree_new \<noteq> None"
    by (intro perform_all_defined rebuilt_new) (simp add: AVLTree_new_def)
next
  fix t assume "perform_all qs AVLTree_new = Some t"
  then have r: "rebuilt t"
    by (rule rebuilt_perform_all [OF rebuilt_new])
  show "inorder (root_node t) = sortedElements t" "bst (root_node t)"
    "balanced (root_node t)" "heights_stored (root_node t)"
    by (rule rebuilt_tree [OF r])+
  then show "printInorder t = sortedElements t"
    "height (root_node t) = int (depth (root_node t))"
    by (simp_all add: printInorder_def height_eq_depth)
  show "sorted_wrt (<) (sortedElements t)"
    using r by (simp add: rebuilt_def)
qed

theorem tree_invariant_witness:
  "length [Insert 15, Insert 29, Insert 23, Remove 15, Insert (33::int)] \<le> 1073741824 \<and>
   perform_all [Insert 15, Insert 29, Insert 23, Remove 15, Insert 33] AVLTree_new =
     Some \<lparr>root_node = Node (Node Null 23 Null 1) 29 (Node Null 33 Null 1) 2,
           sortedElements = [23, 29, 33 :: int]\<rparr> \<and>
   inorder (Node (Node Null 23 Null 1) 29 (Node Null 33 Null 1) 2) = [23, 29, 33 :: int] \<and>
   bst (Node (Node Null 23 Null 1) (29::int) (Node Null 33 Null 1) 2) \<and>
   balanced (Node (Node Null 23 Null 1) (29::int) (Node Null 33 Null 1) 2)"
  using tree_invariant [of "[Insert 15, Insert 29, Insert 23, Remove 15, Insert (33::int)]"]
    run_example
  by simp

text \<open>
  Claim C5. In every state that calls of \<open>insert\<close> and \<open>remove\<close> on a new tree leave,
  the keys of the tree are those of \<open>sortedElements\<close>. For a key among them \<open>search\<close>
  returns true and the last node of \<open>getSearchPath\<close> holds the key; for any other key
  \<open>search\<close> returns false and, when the tree is not empty, the last node of the path
  holds a different key. The path is the descent from the root: every node visited,
  in order, ending with the node that holds the key or with the node that lacks the
  child on the key's side.
\<close>

theorem search_correct:
  assumes "perform_all qs AVLTree_new = Some t"
  shows "set (inorder (root_node t)) = set (sortedElements t) \<and>
    descent k (root_node t) (getSearchPath k t) \<and>
    Null \<notin> set (getSearchPath k t) \<and>
    (k \<in> set (sortedElements t) \<longrightarrow>
       search k t \<and> getSearchPath k t \<noteq> [] \<and> key (last (getSearchPath k t)) = k) \<and>
    (k \<notin> set (sortedElements t) \<longrightarrow>
       \<not> search k t \<and>
       (root_node t \<noteq> Null \<longrightarrow>
          getSearchPath k t \<noteq> [] \<and> key (last (getSearchPath k t)) \<noteq> k))"
proof -
  have r: "rebuilt t"
    using assms by (rule rebuilt_perform_all [OF rebuilt_new])
  note tr = rebuilt_tree [OF r]
  have s: "search k t = (k \<in> set (sortedElements t))"
    using searchBST_bst [OF tr(2), of k] tr(1) by (simp add: search_def)
  have n: "root_node t \<noteq> Null" if "k \<in> set (sortedElements t)"
    using that tr(1) by (cases "root_node t") auto
  have e: "Null \<notin> set (getSearchPath k t)"
    using getSearchPath_from_last [OF tr(2), of k]
    by (cases "root_node t = Null") (simp_all add: getSearchPath_def)
  show ?thesis
    using s n e tr(1) descent_getSearchPath_from [of k "root_node t"]
      getSearchPath_from_last [OF tr(2), of k]
    by (auto simp: getSearchPath_def)
qed

theorem search_correct_witness:
  "perform_all [Insert 15, Insert 29, Insert 23, Remove 15, Insert 33] AVLTree_new =
     Some \<lparr>root_node = Node (Node Null 23 Null 1) 29 (Node Null 33 Null 1) 2,
           sortedElements = [23, 29, 33 :: int]\<rparr> \<and>
   search 33 \<lparr>root_node = Node (Node Null 23 Null 1) 29 (Node Null 33 Null 1) 2,
           sortedElements = [23, 29, 33 :: int]\<rparr> \<and>
   map key (getSearchPath 33 \<lparr>root_node = Node (Node Null 23 Null 1) 29 (Node Null 33 Null 1) 2,
           sortedElements = [23, 29, 33 :: int]\<rparr>) = [29, 33] \<and>
   \<not> search 110 \<lparr>root_node = Node (Node Null 23 Null 1) 29 (Node Null 33 Null 1) 2,
           sortedElements = [23, 29, 33 :: int]\<rparr> \<and>
   map key (getSearchPath 110 \<lparr>root_node = Node (Node Null 23 Null 1) 29 (Node Null 33 Null 1) 2,
           sortedElements = [23, 29, 33 :: int]\<rparr>) = [29, 33]"
  using search_correct [OF run_example, of 33] search_correct [OF run_example, of 110]
    run_example
  by (simp add: getSearchPath_def)

text \<open>
  Claim C9. When the root is null, \<open>getSearchPath\<close> returns the empty path and
  \<open>search\<close> returns false for every key; the path has no last node to compare, and the
  test in \<open>main\<close>, which asks for a non-empty path first, reports not found.
\<close>

theorem empty_tree_search:
  assumes "root_node t = Null"
  shows "getSearchPath k t = [] \<and> \<not> search k t \<and> \<not> found (getSearchPath k t) k"
  using assms by (simp add: getSearchPath_def search_def found_def)

theorem empty_tree_search_witness:
  "root_node (AVLTree_new :: int AVLTree) = Null \<and>
   getSearchPath 110 (AVLTree_new :: int AVLTree) = [] \<and>
   \<not> search 110 (AVLTree_new :: int AVLTree) \<and>
   \<not> found (getSearchPath 110 (AVLTree_new :: int AVLTree)) 110"
proof -
  have n: "root_node (AVLTree_new :: int AVLTree) = Null"
    by (simp add: AVLTree_new_def)
  show ?thesis
    using empty_tree_search [OF n, of 110] n by blast
qed

text \<open>
  Claim C6. In every state that calls of \<open>insert\<close> and \<open>remove\<close> on a new tree leave,
  \<open>insert(k)\<close> twice in a row gives what \<open>insert(k)\<close> once gives: the same vector and
  the same tree. The call has a defined result whenever fewer than \<open>2 ^ 30\<close> keys are
  stored.
\<close>

theorem insert_idempotent:
  assumes "perform_all qs AVLTree_new = Some t"
  shows "insert_key k t \<bind> insert_key k = insert_key k t \<and>
         (length (sortedElements t) < 1073741824 \<longrightarrow> insert_key k t \<noteq> None)"
proof -
  have r: "rebuilt t"
    using assms by (rule rebuilt_perform_all [OF rebuilt_new])
  have "insert_key k t' = Some t'" if "insert_key k t = Some t'" for t'
    using rebuilt_insert_key [OF r that] by (intro insert_key_present) simp_all
  then have "insert_key k t \<bind> insert_key k = insert_key k t"
    by (cases "insert_key k t") simp_all
  moreover have "insert_key k t \<noteq> None" if "length (sortedElements t) < 1073741824"
    using perform_defined [OF r that, of "Insert k"] by simp
  ultimately show ?thesis by simp
qed

theorem insert_idempotent_witness:
  "perform_all [Insert 15, Insert 29, Insert 23, Remove 15, Insert 33] AVLTree_new =
     Some \<lparr>root_node = Node (Node Null 23 Null 1) 29 (Node Null 33 Null 1) 2,
           sortedElements = [23, 29, 33 :: int]\<rparr> \<and>
   length [23, 29, 33 :: int] < 1073741824 \<and>
   insert_key 41 \<lparr>root_node = Node (Node Null 23 Null 1) 29 (Node Null 33 Null 1) 2,
           sortedElements = [23, 29, 33 :: int]\<rparr> \<bind> insert_key 41 =
     Some \<lparr>root_node = Node (Node (Node Null 23 Null 1) 29 Null 2) 33 (Node Null 41 Null 1) 3,
           sortedElements = [23, 29, 33, 41]\<rparr>"
proof -
  have i: "insert_key 41 \<lparr>root_node = Node (Node Null 23 Null 1) 29 (Node Null 33 Null 1) 2,
           sortedElements = [23, 29, 33 :: int]\<rparr> =
     Some \<lparr>root_node = Node (Node (Node Null 23 Null 1) 29 Null 2) 33 (Node Null 41 Null 1) 3,
           sortedElements = [23, 29, 33, 41]\<rparr>"
    by code_simp
  show ?thesis
    using insert_idempotent [OF run_example, of 41] run_example
    unfolding i by simp
qed

lemma perform_all_append:
  "perform_all (qs @ qs') t = perform_all qs t \<bind> perform_all qs'"
  by (induction qs arbitrary: t) (simp_all split: bind_splits)

text \<open>Storing the keys \<open>0, \<dots>, n - 1\<close> in ascending order, for \<open>n \<le> 2 ^ 30\<close>.\<close>

lemma perform_all_ascending:
  "n \<le> 1073741824 \<Longrightarrow>
     \<exists>t. perform_all (map Insert [0..<n]) AVLTree_new = Some t \<and> sortedElements t = [0..<n]"
proof (induction n)
  case 0
  then show ?case by (simp add: AVLTree_new_def)
next
  case (Suc n)
  then obtain t where t: "perform_all (map Insert [0..<n]) AVLTree_new = Some t"
    "sortedElements t = [0..<n]"
    by auto
  have r: "rebuilt t"
    using t(1) by (rule rebuilt_perform_all [OF rebuilt_new])
  have a: "n \<notin> set (sortedElements t)" and s: "length (sortedElements t) < 1073741824"
    using t(2) Suc.prems by simp_all
  have lb: "lower_bound [0..<n] n = n"
    unfolding lower_bound_def by (subst takeWhile_eq_all_conv [THEN iffD2]) simp_all
  have xs: "[0..<Suc n] =
              take (lower_bound (sortedElements t) n) (sortedElements t) @
              n # drop (lower_bound (sortedElements t) n) (sortedElements t)"
    unfolding t(2) lb by simp
  have "insert_key n t =
          Some \<lparr>root_node = buildFrom [0..<Suc n] 0 (int (length [0..<Suc n]) - 1),
                sortedElements = [0..<Suc n]\<rparr>"
    by (rule insert_key_absent [OF r a s xs])
  then have "perform_all (map Insert [0..<n] @ [Insert n]) AVLTree_new =
          Some \<lparr>root_node = buildFrom [0..<Suc n] 0 (int (length [0..<Suc n]) - 1),
                sortedElements = [0..<Suc n]\<rparr>"
    unfolding perform_all_append t(1) by simp
  then show ?case by simp
qed

text \<open>
  The bound on the number of stored keys cannot be dropped: the state with the keys
  \<open>0, \<dots>, 2 ^ 30 - 1\<close> is reached by calls of \<open>insert\<close>, and there \<open>insert\<close> of the new
  key \<open>2 ^ 30\<close> has no defined result.
\<close>

lemma insert_at_capacity_undefined:
  "\<exists>t. perform_all (map Insert [0..<1073741824]) AVLTree_new = Some t \<and>
       1073741824 \<notin> set (sortedElements t) \<and>
       insert_key 1073741824 t \<bind> remove_key 1073741824 = None"
proof -
  obtain t where t: "perform_all (map Insert [0..<1073741824]) AVLTree_new = Some t"
    "sortedElements t = [0..<1073741824]"
    using perform_all_ascending [of 1073741824] by auto
  have r: "rebuilt t"
    using t(1) by (rule rebuilt_perform_all [OF rebuilt_new])
  have a: "1073741824 \<notin> set (sortedElements t)" and l: "length (sortedElements t) = 1073741824"
    using t(2) by simp_all
  have "insert_key 1073741824 t = None"
    by (rule insert_key_full [OF r a l])
  then show ?thesis using t(1) a by simp
qed

text \<open>
  Claim C7, as the code has it. In every state that calls of \<open>insert\<close> and \<open>remove\<close> on
  a new tree leave, for a key \<open>k\<close> that is not stored: when fewer than \<open>2 ^ 30\<close> keys are
  stored, \<open>insert(k)\<close> followed by \<open>remove(k)\<close> returns and gives back the state before
  the two calls, vector and tree; and with any number of keys stored, whenever
  \<open>insert(k)\<close> returns, \<open>remove(k)\<close> gives back that state. With \<open>2 ^ 30\<close> keys stored
  \<open>insert\<close> of a new key has no defined result, so the round trip holds only below
  that number.
\<close>

theorem insert_then_remove:
  assumes "perform_all qs AVLTree_new = Some t" and "k \<notin> set (sortedElements t)"
  shows "(\<forall>t'. insert_key k t = Some t' \<longrightarrow> remove_key k t' = Some t) \<and>
         (length (sortedElements t) < 1073741824 \<longrightarrow>
            insert_key k t \<bind> remove_key k = Some t)"
proof -
  have r: "rebuilt t"
    using assms(1) by (rule rebuilt_perform_all [OF rebuilt_new])
  let ?i = "lower_bound (sortedElements t) k"
  let ?xs' = "take ?i (sortedElements t) @ k # drop ?i (sortedElements t)"
  have restore: "remove_key k t' = Some t" if ins: "insert_key k t = Some t'" for t'
  proof -
    have "length (sortedElements t) \<noteq> 1073741824"
      using insert_key_full [OF r assms(2)] ins by auto
    then have small: "length (sortedElements t) < 1073741824"
      using r by (simp add: rebuilt_def)
    have t': "t' = \<lparr>root_node = buildFrom ?xs' 0 (int (length ?xs') - 1), sortedElements = ?xs'\<rparr>"
      using insert_key_absent [OF r assms(2) small refl] ins by simp
    have r': "rebuilt t'" and k: "k \<in> set (sortedElements t')"
      using rebuilt_insert_key [OF r ins] by simp_all
    have lb: "lower_bound (sortedElements t') k = ?i"
      unfolding t' by (simp add: lower_bound_after_insert)
    have "take ?i ?xs' @ drop (Suc ?i) ?xs' = sortedElements t"
      by (rule erase_after_insert) (rule lower_bound_le)
    then have xs: "take (lower_bound (sortedElements t') k) (sortedElements t') @
               drop (Suc (lower_bound (sortedElements t') k)) (sortedElements t') =
             sortedElements t"
      unfolding lb unfolding t' by simp
    have "remove_key k t' =
            Some \<lparr>root_node = buildFrom (sortedElements t) 0 (int (length (sortedElements t)) - 1),
                  sortedElements = sortedElements t\<rparr>"
      by (rule remove_key_present [OF r' k xs [symmetric]])
    also have "\<dots> = Some t"
      using r by (cases t) (simp add: rebuilt_def)
    finally show ?thesis .
  qed
  have "insert_key k t \<bind> remove_key k = Some t" if small: "length (sortedElements t) < 1073741824"
  proof -
    obtain t' where "insert_key k t = Some t'"
      using perform_defined [OF r small, of "Insert k"] by auto
    then show ?thesis using restore by simp
  qed
  then show ?thesis using restore by blast
qed

theorem insert_then_remove_witness:
  "perform_all [Insert 15, Insert 29, Insert 23, Remove 15, Insert 33] AVLTree_new =
     Some \<lparr>root_node = Node (Node Null 23 Null 1) 29 (Node Null 33 Null 1) 2,
           sortedElements = [23, 29, 33 :: int]\<rparr> \<and>
   41 \<notin> set [23, 29, 33 :: int] \<and> length [23, 29, 33 :: int] < 1073741824 \<and>
   insert_key 41 \<lparr>root_node = Node (Node Null 23 Null 1) 29 (Node Null 33 Null 1) 2,
           sortedElements = [23, 29, 33 :: int]\<rparr> \<bind> remove_key 41 =
     Some \<lparr>root_node = Node (Node Null 23 Null 1) 29 (Node Null 33 Null 1) 2,
           sortedElements = [23, 29, 33]\<rparr>"
proof -
  have a: "41 \<notin> set (sortedElements \<lparr>root_node = Node (Node Null 23 Null 1) 29 (Node Null 33 Null 1) 2,
           sortedElements = [23, 29, 33 :: int]\<rparr>)"
    by simp
  show ?thesis
    using insert_then_remove [OF run_example a] run_example by simp
qed

text \<open>
  Claim C7 as stated, for every key, fails for a key that is already stored: on the
  tree that holds only 5, \<open>insert(5)\<close> changes nothing and \<open>remove(5)\<close> then leaves the
  empty tree, not the tree before the two calls.
\<close>

theorem insert_then_remove_counterexample:
  "perform_all [Insert 5] AVLTree_new =
     Some \<lparr>root_node = Node Null 5 Null 1, sortedElements = [5 :: int]\<rparr> \<and>
   insert_key 5 \<lparr>root_node = Node Null 5 Null 1, sortedElements = [5 :: int]\<rparr> \<bind> remove_key 5 =
     Some \<lparr>root_node = Null, sortedElements = []\<rparr> \<and>
   insert_key 5 \<lparr>root_node = Node Null 5 Null 1, sortedElements = [5 :: int]\<rparr> \<bind> remove_key 5 \<noteq>
     Some \<lparr>root_node = Node Null 5 Null 1, sortedElements = [5 :: int]\<rparr>"
proof -
  have "perform_all [Insert 5] AVLTree_new =
     Some \<lparr>root_node = Node Null 5 Null 1, sortedElements = [5 :: int]\<rparr>"
    by code_simp
  moreover have "insert_key 5 \<lparr>root_node = Node Null 5 Null 1, sortedElements = [5 :: int]\<rparr> \<bind> remove_key 5 =
     Some \<lparr>root_node = Null, sortedElements = []\<rparr>"
    by code_simp
  ultimately show ?thesis by simp
qed

text \<open>
  Claim C8. In every state that calls of \<open>insert\<close> and \<open>remove\<close> on a new tree leave,
  \<open>insert\<close> of a stored key returns with vector and tree unchanged, \<open>remove\<close> of a key
  that is not stored returns with vector and tree unchanged, and for such a key
  \<open>search\<close> returns false and the path of \<open>getSearchPath\<close> is empty or ends at a node
  with another key.
\<close>

theorem silent_no_ops:
  assumes "perform_all qs AVLTree_new = Some t"
  shows "(k \<in> set (sortedElements t) \<longrightarrow> insert_key k t = Some t) \<and>
         (k \<notin> set (sortedElements t) \<longrightarrow>
            remove_key k t = Some t \<and> \<not> search k t \<and> \<not> found (getSearchPath k t) k)"
proof -
  have r: "rebuilt t"
    using assms by (rule rebuilt_perform_all [OF rebuilt_new])
  note tr = rebuilt_tree [OF r]
  have "\<not> search k t \<and> \<not> found (getSearchPath k t) k" if a: "k \<notin> set (sortedElements t)"
  proof -
    have "\<not> search k t"
      using searchBST_bst [OF tr(2), of k] tr(1) a by (simp add: search_def)
    moreover have "\<not> found (getSearchPath k t) k"
    proof (cases "root_node t = Null")
      case True
      then show ?thesis by (simp add: found_def getSearchPath_def)
    next
      case False
      then show ?thesis
        using getSearchPath_from_last [OF tr(2) False, of k] tr(1) a
        by (simp add: found_def getSearchPath_def)
    qed
    ultimately show ?thesis by simp
  qed
  then show ?thesis
    using insert_key_present [OF r, of k] remove_key_absent [OF r, of k] by blast
qed

theorem silent_no_ops_witness:
  "perform_all [Insert 15, Insert 29, Insert 23, Remove 15, Insert 33] AVLTree_new =
     Some \<lparr>root_node = Node (Node Null 23 Null 1) 29 (Node Null 33 Null 1) 2,
           sortedElements = [23, 29, 33 :: int]\<rparr> \<and>
   insert_key 29 \<lparr>root_node = Node (Node Null 23 Null 1) 29 (Node Null 33 Null 1) 2,
           sortedElements = [23, 29, 33 :: int]\<rparr> =
     Some \<lparr>root_node = Node (Node Null 23 Null 1) 29 (Node Null 33 Null 1) 2,
           sortedElements = [23, 29, 33]\<rparr> \<and>
   remove_key 15 \<lparr>root_node = Node (Node Null 23 Null 1) 29 (Node Null 33 Null 1) 2,
           sortedElements = [23, 29, 33 :: int]\<rparr> =
     Some \<lparr>root_node = Node (Node Null 23 Null 1) 29 (Node Null 33 Null 1) 2,
           sortedElements = [23, 29, 33]\<rparr> \<and>
   \<not> search 15 \<lparr>root_node = Node (Node Null 23 Null 1) 29 (Node Null 33 Null 1) 2,
           sortedElements = [23, 29, 33 :: int]\<rparr>"
  using silent_no_ops [OF run_example, of 29] silent_no_ops [OF run_example, of 15] run_example
  by simp


end
